theory Spec2Isabelle
  imports Main "HOL-Library.Word" "HOL-Library.AList" "HOL-Library.Sublist"
begin

section \<open>Values, identifiers and property bags\<close>

text \<open>
  An element id is \<^verbatim>\<open>Union[uuid.UUID, str]\<close>. A UUID is a 128-bit integer and compares
  by that integer; a UUID never equals a string.
\<close>

datatype ident = UUID "128 word" | Str string

text \<open>
  Property values are heterogeneous. The constructors are the kinds of value the
  operations below tell apart: only a string has a \<^verbatim>\<open>find\<close> method, and a nested
  dictionary is what \<^verbatim>\<open>serialize\<close> stores under \<^verbatim>\<open>short_details\<close>.
  A dictionary is an association list in insertion order, its keys pairwise distinct.
\<close>

datatype pyval =
    PNone
  | PBool bool
  | PInt int
  | PStr string
  | PUuid "128 word"
  | PDict "(string \<times> pyval) list"

type_synonym dict = "(string \<times> pyval) list"

datatype error = KeyError | ValueError | AttributeError

fun id_val :: "ident \<Rightarrow> pyval" where
  "id_val (UUID u) = PUuid u"
| "id_val (Str s) = PStr s"

definition dict_get :: "dict \<Rightarrow> string \<Rightarrow> pyval option" where
  "dict_get d k = map_of d k"

text \<open>\<^verbatim>\<open>d[k] = v\<close>: an existing key keeps its place, a new key goes last.\<close>

definition dict_set :: "dict \<Rightarrow> string \<Rightarrow> pyval \<Rightarrow> dict" where
  "dict_set d k v = AList.update k v d"

text \<open>\<^verbatim>\<open>d1 | d2\<close>: a copy of \<^verbatim>\<open>d1\<close> updated with the items of \<^verbatim>\<open>d2\<close> in order.\<close>

definition dict_or :: "dict \<Rightarrow> dict \<Rightarrow> dict" where
  "dict_or d1 d2 = fold (\<lambda>(k, v) d. dict_set d k v) d2 d1"

definition dict_keys :: "dict \<Rightarrow> string list" where
  "dict_keys d = map fst d"

section \<open>Elements: BaseGraphElement, Node, Edge\<close>

record element =
  elem_id :: ident
  properties :: dict

type_synonym node = element

record edge = element +
  from_id :: ident
  to_id :: ident

text \<open>\<^verbatim>\<open>set_property\<close>: an unconditional upsert.\<close>

definition set_property :: "'a element_scheme \<Rightarrow> string \<Rightarrow> pyval \<Rightarrow> 'a element_scheme" where
  "set_property e name v = e\<lparr>properties := dict_set (properties e) name v\<rparr>"

text \<open>
  \<^verbatim>\<open>get_property(name, no_error=False)\<close>. The subscript \<^verbatim>\<open>self._properties[name]\<close>
  raises \<^verbatim>\<open>KeyError\<close> on a missing key; \<^verbatim>\<open>dict.get\<close> returns \<^verbatim>\<open>None\<close> there.
\<close>

definition get_property :: "'a element_scheme \<Rightarrow> string \<Rightarrow> bool \<Rightarrow> error + pyval" where
  "get_property e name no_error =
     (if name = ''id'' then Inr (id_val (elem_id e))
      else if no_error then
        (case dict_get (properties e) name of None \<Rightarrow> Inr PNone | Some v \<Rightarrow> Inr v)
      else
        (case dict_get (properties e) name of None \<Rightarrow> Inl KeyError | Some v \<Rightarrow> Inr v))"

text \<open>
  \<^verbatim>\<open>split_dict(in_dict, strip_list)\<close>: the items whose key is in \<^verbatim>\<open>strip_list\<close> go to
  the first dictionary, the others to the second; an empty \<^verbatim>\<open>strip_list\<close> raises
  \<^verbatim>\<open>ValueError\<close>.
\<close>

fun split_loop :: "dict \<Rightarrow> string list \<Rightarrow> dict \<Rightarrow> dict \<Rightarrow> dict \<times> dict" where
  "split_loop [] strip_list left right = (left, right)"
| "split_loop ((k, v) # items) strip_list left right =
     (if k \<in> set strip_list then split_loop items strip_list (dict_set left k v) right
      else split_loop items strip_list left (dict_set right k v))"

definition split_dict :: "dict \<Rightarrow> string list \<Rightarrow> error + dict \<times> dict" where
  "split_dict in_dict strip_list =
     (if strip_list = [] then Inl ValueError
      else Inr (split_loop in_dict strip_list [] []))"

text \<open>\<^verbatim>\<open>__dict__()\<close> of the base class, and its override in \<^verbatim>\<open>Edge\<close>.\<close>

definition element_dict :: "'a element_scheme \<Rightarrow> dict" where
  "element_dict e = dict_or (properties e) [(''id'', id_val (elem_id e))]"

definition edge_dict :: "edge \<Rightarrow> dict" where
  "edge_dict e =
     dict_or (properties e)
       [(''id'', id_val (elem_id e)), (''start'', id_val (from_id e)), (''end'', id_val (to_id e))]"

text \<open>
  \<^verbatim>\<open>__iter__\<close>: the keys of the property bag, then \<^verbatim>\<open>self.id\<close> appended, iterated as a
  set. The result is the set of values yielded (the iteration order of a Python set is
  not specified).
\<close>

definition element_iter :: "'a element_scheme \<Rightarrow> pyval set" where
  "element_iter e = set (map PStr (dict_keys (properties e)) @ [id_val (elem_id e)])"

text \<open>
  \<^verbatim>\<open>BaseGraphElement.serialize(split_list=None)\<close>. The call \<^verbatim>\<open>self.__dict__()\<close> is
  dispatched on the class of the element, so the method of that class is the first
  argument. \<^verbatim>\<open>not split_list\<close> holds for \<^verbatim>\<open>None\<close> and for the empty list.
\<close>

definition default_split_list :: "string list" where
  "default_split_list = [''id'', ''label'', ''description'', ''type'']"

definition serialize ::
  "('a element_scheme \<Rightarrow> dict) \<Rightarrow> 'a element_scheme \<Rightarrow> string list option \<Rightarrow> error + dict" where
  "serialize dict_method e split_list =
     (let split_list' =
            (case split_list of None \<Rightarrow> default_split_list
             | Some l \<Rightarrow> if l = [] then default_split_list else l);
          original = dict_method e
      in case split_dict original split_list' of
           Inl err \<Rightarrow> Inl err
         | Inr (outer, inner) \<Rightarrow> Inr (dict_or outer [(''short_details'', PDict inner)]))"

definition node_serialize :: "node \<Rightarrow> string list option \<Rightarrow> error + dict" where
  "node_serialize n split_list = serialize element_dict n split_list"

definition edge_split_list :: "string list" where
  "edge_split_list = [''id'', ''label'', ''description'', ''type'', ''start'', ''end'']"

definition edge_serialize :: "edge \<Rightarrow> error + dict" where
  "edge_serialize e = serialize edge_dict e (Some edge_split_list)"

section \<open>InternalGraph\<close>

text \<open>
  A graph object holds references to two list objects and owns its membership index. The
  record \<^verbatim>\<open>graph\<close> is what a graph object holds at one moment: the contents of the list
  that \<^verbatim>\<open>self.nodes\<close> refers to, of the list that \<^verbatim>\<open>self.edges\<close> refers to, and the set
  \<^verbatim>\<open>self._all_node_ids\<close>. The queries read it; the list objects themselves, which the
  constructor and the two mutators work on, come below.
\<close>

record graph =
  nodes :: "node list"
  edges :: "edge list"
  all_node_ids :: "ident set"

text \<open>
  \<^verbatim>\<open>get_node_neighbors\<close> is a generator; the model returns the list of the values it
  yields, each \<^verbatim>\<open>yield\<close> appending one.
\<close>

fun neighbors_loop :: "ident \<Rightarrow> edge list \<Rightarrow> ident list \<Rightarrow> ident list" where
  "neighbors_loop i [] out = out"
| "neighbors_loop i (e # es) out =
     (let out1 = (if i = from_id e then out @ [to_id e] else out);
          out2 = (if i = to_id e then out1 @ [from_id e] else out1)
      in neighbors_loop i es out2)"

definition get_node_neighbors :: "graph \<Rightarrow> ident \<Rightarrow> ident list" where
  "get_node_neighbors g i = neighbors_loop i (edges g) []"

text \<open>\<^verbatim>\<open>get_all_edges(node_ids)\<close>, a generator as well; \<^verbatim>\<open>node_ids\<close> is a list.\<close>

fun all_edges_loop :: "ident list \<Rightarrow> edge list \<Rightarrow> edge list \<Rightarrow> edge list" where
  "all_edges_loop node_ids [] out = out"
| "all_edges_loop node_ids (e # es) out =
     (if from_id e \<in> set node_ids \<and> to_id e \<in> set node_ids
      then all_edges_loop node_ids es (out @ [e])
      else all_edges_loop node_ids es out)"

definition get_all_edges :: "graph \<Rightarrow> ident list \<Rightarrow> edge list" where
  "get_all_edges g node_ids = all_edges_loop node_ids (edges g) []"

text \<open>
  \<^verbatim>\<open>add_node(node)\<close> takes one node or a list of nodes and returns the updated graph
  with the list \<^verbatim>\<open>added_nodes\<close>.
\<close>

datatype node_arg = OneNode node | NodeList "node list"

fun add_node_loop :: "graph \<Rightarrow> node list \<Rightarrow> node list \<Rightarrow> graph \<times> node list" where
  "add_node_loop g [] added_nodes = (g, added_nodes)"
| "add_node_loop g (n # ns) added_nodes =
     (if elem_id n \<notin> all_node_ids g
      then add_node_loop
             (g\<lparr>nodes := nodes g @ [n], all_node_ids := insert (elem_id n) (all_node_ids g)\<rparr>)
             ns (added_nodes @ [n])
      else add_node_loop g ns added_nodes)"

definition add_node :: "graph \<Rightarrow> node_arg \<Rightarrow> graph \<times> node list" where
  "add_node g node =
     add_node_loop g (case node of OneNode n \<Rightarrow> [n] | NodeList ns \<Rightarrow> ns) []"

datatype edge_arg = OneEdge edge | EdgeList "edge list"

definition add_edge :: "graph \<Rightarrow> edge_arg \<Rightarrow> graph" where
  "add_edge g edge =
     (case edge of
        EdgeList es \<Rightarrow> g\<lparr>edges := edges g @ es\<rparr>
      | OneEdge e \<Rightarrow> g\<lparr>edges := edges g @ [e]\<rparr>)"

definition node_exists :: "graph \<Rightarrow> ident \<Rightarrow> bool" where
  "node_exists g i = (i \<in> all_node_ids g)"

subsection \<open>List objects and graph objects\<close>

text \<open>
  Python lists are objects: a list passed to the constructor is not copied. The store
  maps the reference of a list object to its contents; \<^verbatim>\<open>fresh\<close> is the next reference
  that \<^verbatim>\<open>list()\<close> hands out. A graph object has the references of its two lists and its
  own index set; \<^verbatim>\<open>objects\<close> holds the graph objects in the order of their construction.
\<close>

type_synonym ref = nat

record graph_obj =
  nodes_at :: ref
  edges_at :: ref
  ids :: "ident set"

record world =
  node_lists :: "ref \<Rightarrow> node list"
  edge_lists :: "ref \<Rightarrow> edge list"
  fresh :: ref
  objects :: "graph_obj list"

text \<open>What the graph object \<^verbatim>\<open>h\<close> holds in the world \<^verbatim>\<open>w\<close>.\<close>

definition view :: "world \<Rightarrow> graph_obj \<Rightarrow> graph" where
  "view w h =
     \<lparr> nodes = node_lists w (nodes_at h), edges = edge_lists w (edges_at h),
       all_node_ids = ids h \<rparr>"

text \<open>\<^verbatim>\<open>list()\<close>: a new, empty list object.\<close>

definition new_node_list :: "world \<Rightarrow> world \<times> ref" where
  "new_node_list w =
     (w\<lparr>node_lists := (node_lists w)(fresh w := []), fresh := Suc (fresh w)\<rparr>, fresh w)"

definition new_edge_list :: "world \<Rightarrow> world \<times> ref" where
  "new_edge_list w =
     (w\<lparr>edge_lists := (edge_lists w)(fresh w := []), fresh := Suc (fresh w)\<rparr>, fresh w)"

text \<open>
  \<^verbatim>\<open>InternalGraph.__init__(nodes=None, edges=None)\<close>. An argument is absent or the
  reference of a list object. \<^verbatim>\<open>self.nodes = nodes if nodes else list()\<close> keeps the
  caller's list object when it is given and not empty, and makes a new list otherwise;
  the same for the edges. The index is a new set, filled from \<^verbatim>\<open>nodes\<close> when that is
  given and not empty.
\<close>

definition InternalGraph_init :: "world \<Rightarrow> ref option \<Rightarrow> ref option \<Rightarrow> world" where
  "InternalGraph_init w nodes_arg edges_arg =
     (let (w1, self_nodes) =
            (case nodes_arg of
               None \<Rightarrow> new_node_list w
             | Some r \<Rightarrow> if node_lists w r \<noteq> [] then (w, r) else new_node_list w);
          (w2, self_edges) =
            (case edges_arg of
               None \<Rightarrow> new_edge_list w1
             | Some r \<Rightarrow> if edge_lists w1 r \<noteq> [] then (w1, r) else new_edge_list w1);
          index =
            (case nodes_arg of
               None \<Rightarrow> {}
             | Some r \<Rightarrow>
                 if node_lists w r \<noteq> []
                 then fold (\<lambda>x s. insert (elem_id x) s) (node_lists w r) {}
                 else {})
      in w2\<lparr>objects := objects w2
             @ [\<lparr>nodes_at = self_nodes, edges_at = self_edges, ids = index\<rparr>]\<rparr>)"

text \<open>
  \<^verbatim>\<open>add_node\<close> and \<^verbatim>\<open>add_edge\<close> on the graph object number \<^verbatim>\<open>k\<close>: the method runs on
  what the object holds, \<^verbatim>\<open>append\<close> and \<^verbatim>\<open>extend\<close> change the list object in place, so
  every holder of that list object sees the new contents, and the index of this graph
  object alone is updated. A list argument is read as the contents it has at the call;
  when it is the graph's own node list the loop also runs over the nodes it appends,
  whose ids the index then holds, and ends with the same lists and index.
\<close>

definition add_node_at :: "world \<Rightarrow> nat \<Rightarrow> node_arg \<Rightarrow> world \<times> node list" where
  "add_node_at w k node =
     (let self = objects w ! k;
          (g', added_nodes) = add_node (view w self) node
      in (w\<lparr>node_lists := (node_lists w)(nodes_at self := nodes g'),
             objects := (objects w)[k := self\<lparr>ids := all_node_ids g'\<rparr>]\<rparr>,
          added_nodes))"

definition add_edge_at :: "world \<Rightarrow> nat \<Rightarrow> edge_arg \<Rightarrow> world" where
  "add_edge_at w k edge =
     (let self = objects w ! k;
          g' = add_edge (view w self) edge
      in w\<lparr>edge_lists := (edge_lists w)(edges_at self := edges g')\<rparr>)"

text \<open>
  A sequence of operations, applied in order: a constructor call, or a call of a mutator
  on one of the graph objects constructed so far (a call on an object that does not
  exist changes nothing).
\<close>

datatype operation =
    Construct "ref option" "ref option"
  | AddNode nat node_arg
  | AddEdge nat edge_arg

fun step :: "world \<Rightarrow> operation \<Rightarrow> world" where
  "step w (Construct nodes_arg edges_arg) = InternalGraph_init w nodes_arg edges_arg"
| "step w (AddNode k a) = (if k < length (objects w) then fst (add_node_at w k a) else w)"
| "step w (AddEdge k a) = (if k < length (objects w) then add_edge_at w k a else w)"

text \<open>
  The graph object number \<^verbatim>\<open>k\<close> holds its node list alone when no other graph object
  refers to the same list object; its index is exact when it is the set of the ids of
  the nodes in its node list.
\<close>

definition owns_nodes :: "world \<Rightarrow> nat \<Rightarrow> bool" where
  "owns_nodes w k =
     (\<forall>j < length (objects w). j \<noteq> k \<longrightarrow> nodes_at (objects w ! j) \<noteq> nodes_at (objects w ! k))"

definition index_exact :: "world \<Rightarrow> nat \<Rightarrow> bool" where
  "index_exact w k =
     (ids (objects w ! k) = elem_id ` set (node_lists w (nodes_at (objects w ! k))))"

text \<open>The invariant of a world: every graph object that holds its node list alone has an exact index.\<close>

definition index_kept :: "world \<Rightarrow> bool" where
  "index_kept w = (\<forall>k < length (objects w). owns_nodes w k \<longrightarrow> index_exact w k)"

text \<open>\<^verbatim>\<open>get_all_node_property_names\<close>: the keys of every node's \<^verbatim>\<open>__dict__()\<close>.\<close>

definition get_all_node_property_names :: "graph \<Rightarrow> string set" where
  "get_all_node_property_names g = set (concat (map (\<lambda>e. dict_keys (element_dict e)) (nodes g)))"

text \<open>
  \<^verbatim>\<open>__getitem__(name)\<close>. The argument is a raw id, a \<^verbatim>\<open>Node\<close> or an \<^verbatim>\<open>Edge\<close>. Every
  branch compares \<^verbatim>\<open>x.id == name\<close>, the id of the scanned element with the argument
  itself: neither \<^verbatim>\<open>uuid.UUID\<close> nor \<^verbatim>\<open>str\<close> equals an element object, and the element
  classes define no \<^verbatim>\<open>__eq__\<close>. Falling off the end returns \<^verbatim>\<open>None\<close>.
\<close>

datatype key = KId ident | KNode node | KEdge edge

datatype entity = ENode node | EEdge edge

fun id_eq :: "ident \<Rightarrow> key \<Rightarrow> bool" where
  "id_eq i (KId j) = (i = j)"
| "id_eq i (KNode n) = False"
| "id_eq i (KEdge e) = False"

definition getitem :: "graph \<Rightarrow> key \<Rightarrow> entity option" where
  "getitem g name =
     (case name of
        KNode _ \<Rightarrow> map_option ENode (find (\<lambda>x. id_eq (elem_id x) name) (nodes g))
      | KEdge _ \<Rightarrow> map_option EEdge (find (\<lambda>x. id_eq (elem_id x) name) (edges g))
      | KId _ \<Rightarrow>
          (case find (\<lambda>x. id_eq (elem_id x) name) (nodes g) of
             Some x \<Rightarrow> Some (ENode x)
           | None \<Rightarrow> map_option EEdge (find (\<lambda>x. id_eq (elem_id x) name) (edges g))))"

fun ent_id :: "entity \<Rightarrow> ident" where
  "ent_id (ENode n) = elem_id n"
| "ent_id (EEdge e) = elem_id e"

fun ent_properties :: "entity \<Rightarrow> dict" where
  "ent_properties (ENode n) = properties n"
| "ent_properties (EEdge e) = properties e"

fun ent_get_property :: "entity \<Rightarrow> string \<Rightarrow> bool \<Rightarrow> error + pyval" where
  "ent_get_property (ENode n) name no_error = get_property n name no_error"
| "ent_get_property (EEdge e) name no_error = get_property e name no_error"

section \<open>Descendant discovery\<close>

text \<open>
  \<^verbatim>\<open>s.find(c)\<close> for a one-character \<^verbatim>\<open>c\<close>: the index of the first occurrence, or -1.
\<close>

fun str_find :: "string \<Rightarrow> char \<Rightarrow> int" where
  "str_find [] c = - 1"
| "str_find (x # xs) c =
     (if x = c then 0 else (let r = str_find xs c in if r < 0 then - 1 else r + 1))"

text \<open>
  \<^verbatim>\<open>found_node.get_property("label").find(":")\<close>. Of the values of the model only a string
  has a \<^verbatim>\<open>find\<close> attribute.
\<close>

definition label_find :: "entity \<Rightarrow> error + int" where
  "label_find found_node =
     (case ent_get_property found_node ''label'' False of
        Inl err \<Rightarrow> Inl err
      | Inr (PStr s) \<Rightarrow> Inr (str_find s CHR '':'')
      | Inr _ \<Rightarrow> Inl AttributeError)"

type_synonym item = "entity option"

text \<open>The list comprehension that starts \<^verbatim>\<open>get_all_node_parents\<close>.\<close>

definition out_targets :: "graph \<Rightarrow> ident \<Rightarrow> item list" where
  "out_targets g i =
     map (\<lambda>e. getitem g (KId (to_id e))) (filter (\<lambda>e. from_id e = i) (edges g))"

text \<open>\<^verbatim>\<open>for child in children: if child not in total: total.append(child)\<close>\<close>

fun append_new :: "'a list \<Rightarrow> 'a list \<Rightarrow> 'a list" where
  "append_new tot [] = tot"
| "append_new tot (child # children) =
     (if child \<notin> set tot then append_new (tot @ [child]) children
      else append_new tot children)"

definition merge_children :: "item list \<Rightarrow> item list option \<Rightarrow> item list" where
  "merge_children tot children =
     (case children of None \<Rightarrow> tot | Some cs \<Rightarrow> if cs = [] then tot else append_new tot cs)"

text \<open>\<^verbatim>\<open>not parents or found_node not in parents\<close>\<close>

definition not_in_parents :: "item list option \<Rightarrow> entity \<Rightarrow> bool" where
  "not_in_parents parents found_node =
     (case parents of None \<Rightarrow> True | Some ps \<Rightarrow> ps = [] \<or> Some found_node \<notin> set ps)"

text \<open>
  \<^verbatim>\<open>get_all_node_parents(start, parents=None)\<close>. The recursion has no bound of its own, so
  the model counts down a fuel: \<^verbatim>\<open>None\<close> is a run that did not finish within the fuel,
  \<^verbatim>\<open>Some (Inl err)\<close> a raised exception, \<^verbatim>\<open>Some (Inr r)\<close> the returned value. The
  \<^verbatim>\<open>for\<close> loop runs over \<^verbatim>\<open>total\<close> by index while \<^verbatim>\<open>total\<close> grows, so it also visits
  the elements appended during the loop. An element of \<^verbatim>\<open>total\<close> is the result of a
  lookup: an element of the graph, or \<^verbatim>\<open>None\<close> for an id that no element has, on which
  the attribute access \<^verbatim>\<open>get_property\<close> fails. Elements are compared as values; for
  results of lookups in one graph that agrees with object identity. The list \<^verbatim>\<open>total\<close>
  is \<^verbatim>\<open>tot\<close> below. The recursion limit of the interpreter is not modelled: the stack is
  as deep as the fuel allows.
\<close>

fun get_all_node_parents ::
      "nat \<Rightarrow> graph \<Rightarrow> entity \<Rightarrow> item list option \<Rightarrow> (error + item list option) option"
  and parents_loop ::
      "nat \<Rightarrow> graph \<Rightarrow> item list option \<Rightarrow> item list \<Rightarrow> nat \<Rightarrow> (error + item list option) option"
where
  "get_all_node_parents 0 g start parents = None"
| "get_all_node_parents (Suc fuel) g start parents =
     (let tot = out_targets g (ent_id start)
      in if tot = [] then Some (Inr None) else parents_loop fuel g parents tot 0)"
| "parents_loop 0 g parents tot i = None"
| "parents_loop (Suc fuel) g parents tot i =
     (if length tot \<le> i then Some (Inr (Some tot))
      else
        (case tot ! i of
           None \<Rightarrow> Some (Inl AttributeError)
         | Some found_node \<Rightarrow>
             (case label_find found_node of
                Inl err \<Rightarrow> Some (Inl err)
              | Inr pos \<Rightarrow>
                  if pos < 0 then parents_loop fuel g parents tot (Suc i)
                  else if not_in_parents parents found_node then
                    (case get_all_node_parents fuel g found_node (Some tot) of
                       None \<Rightarrow> None
                     | Some (Inl err) \<Rightarrow> Some (Inl err)
                     | Some (Inr children) \<Rightarrow>
                         parents_loop fuel g parents (merge_children tot children) (Suc i))
                  else parents_loop fuel g parents tot (Suc i))))"

text \<open>
  The specification of the result, in the words of the documentation and not taken from
  the code: the items that descendant discovery is meant to collect from the element
  with id \<^verbatim>\<open>x\<close> are the targets of its outgoing edges, and the targets of the outgoing
  edges of every collected element whose \<^verbatim>\<open>label\<close> is a string with a colon.
\<close>

definition colon_label :: "entity \<Rightarrow> bool" where
  "colon_label f =
     (case dict_get (ent_properties f) ''label'' of
        Some (PStr s) \<Rightarrow> CHR '':'' \<in> set s
      | _ \<Rightarrow> False)"

inductive_set descendants :: "graph \<Rightarrow> ident \<Rightarrow> item set" for g :: graph and x :: ident where
  direct: "it \<in> set (out_targets g x) \<Longrightarrow> it \<in> descendants g x"
| through: "Some f \<in> descendants g x \<Longrightarrow> colon_label f
     \<Longrightarrow> it \<in> set (out_targets g (ent_id f)) \<Longrightarrow> it \<in> descendants g x"

text \<open>
  What the run needs of a collected item to go on without an exception of another kind
  than a missing key: the lookup found an element, and its \<^verbatim>\<open>label\<close>, when it has one,
  is a string. \<^verbatim>\<open>string_label\<close> also asks for the label to be there.
\<close>

definition readable_label :: "item \<Rightarrow> bool" where
  "readable_label it =
     (case it of
        None \<Rightarrow> False
      | Some f \<Rightarrow>
          (case dict_get (ent_properties f) ''label'' of
             None \<Rightarrow> True
           | Some (PStr s) \<Rightarrow> True
           | Some _ \<Rightarrow> False))"

definition string_label :: "item \<Rightarrow> bool" where
  "string_label it =
     (case it of
        None \<Rightarrow> False
      | Some f \<Rightarrow>
          (case dict_get (ent_properties f) ''label'' of
             Some (PStr s) \<Rightarrow> True
           | _ \<Rightarrow> False))"

definition unlabelled :: "item \<Rightarrow> bool" where
  "unlabelled it =
     (case it of None \<Rightarrow> False | Some f \<Rightarrow> dict_get (ent_properties f) ''label'' = None)"

definition edge_rel :: "graph \<Rightarrow> (ident \<times> ident) set" where
  "edge_rel g = (\<lambda>e. (from_id e, to_id e)) ` set (edges g)"

section \<open>Example elements and graphs\<close>

definition w_node :: "nat \<Rightarrow> dict \<Rightarrow> node" where
  "w_node i props = \<lparr>elem_id = UUID (of_nat i), properties = props\<rparr>"

definition w_edge :: "nat \<Rightarrow> nat \<Rightarrow> nat \<Rightarrow> edge" where
  "w_edge i a b =
     \<lparr>elem_id = UUID (of_nat i), properties = [],
      from_id = UUID (of_nat a), to_id = UUID (of_nat b)\<rparr>"

text \<open>
  Small graphs over the start node 1. In \<^verbatim>\<open>chain_graph\<close> node 2 carries a label with a
  colon and leads on to nodes 3 and 4. In \<^verbatim>\<open>parallel_graph\<close> two edges lead from 1 to 2.
  In \<^verbatim>\<open>unlabelled_graph\<close> node 2 leads on to 3 and node 4 has no label. In
  \<^verbatim>\<open>dangling_graph\<close> the first edge out of 1 leads to an id that no element has and the
  second to the unlabelled node 4; in \<^verbatim>\<open>int_label_graph\<close> the first edge leads to a node
  whose label is an integer.
\<close>

definition chain_graph :: graph where
  "chain_graph =
     \<lparr> nodes = [w_node 1 [(''label'', PStr ''a'')], w_node 2 [(''label'', PStr ''b:x'')],
                w_node 3 [(''label'', PStr ''c'')], w_node 4 [(''label'', PStr ''d'')]],
       edges = [w_edge 10 1 2, w_edge 11 2 3, w_edge 12 2 4],
       all_node_ids = {UUID 1, UUID 2, UUID 3, UUID 4} \<rparr>"

definition parallel_graph :: graph where
  "parallel_graph =
     \<lparr> nodes = [w_node 1 [(''label'', PStr ''a'')], w_node 2 [(''label'', PStr ''b'')]],
       edges = [w_edge 10 1 2, w_edge 11 1 2],
       all_node_ids = {UUID 1, UUID 2} \<rparr>"

definition unlabelled_graph :: graph where
  "unlabelled_graph =
     \<lparr> nodes = [w_node 1 [(''label'', PStr ''a'')], w_node 2 [(''label'', PStr ''b:x'')],
                w_node 3 [(''label'', PStr ''c'')], w_node 4 [(''name'', PStr ''d'')]],
       edges = [w_edge 10 1 2, w_edge 11 2 3, w_edge 12 1 4],
       all_node_ids = {UUID 1, UUID 2, UUID 3, UUID 4} \<rparr>"

definition dangling_graph :: graph where
  "dangling_graph =
     \<lparr> nodes = [w_node 1 [(''label'', PStr ''a'')], w_node 4 [(''name'', PStr ''d'')]],
       edges = [w_edge 10 1 9, w_edge 11 1 4],
       all_node_ids = {UUID 1, UUID 4} \<rparr>"

definition int_label_graph :: graph where
  "int_label_graph =
     \<lparr> nodes = [w_node 1 [(''label'', PStr ''a'')], w_node 2 [(''label'', PInt 5)],
                w_node 4 [(''name'', PStr ''d'')]],
       edges = [w_edge 10 1 2, w_edge 11 1 4],
       all_node_ids = {UUID 1, UUID 2, UUID 4} \<rparr>"

text \<open>
  A graph with the single node 1, one with node 1 and a self-loop edge, and a world in
  which the caller has made one list object, at reference 0, holding node 1.
\<close>

definition single_graph :: graph where
  "single_graph = \<lparr> nodes = [w_node 1 []], edges = [], all_node_ids = {UUID 1} \<rparr>"

definition loop_graph :: graph where
  "loop_graph = \<lparr> nodes = [w_node 1 []], edges = [w_edge 10 1 1], all_node_ids = {UUID 1} \<rparr>"

definition named_graph :: graph where
  "named_graph =
     \<lparr> nodes = [w_node 1 [(''name'', PStr ''A'')]], edges = [], all_node_ids = {UUID 1} \<rparr>"

definition one_list_world :: world where
  "one_list_world =
     \<lparr> node_lists = (\<lambda>r. if r = 0 then [w_node 1 []] else []),
       edge_lists = (\<lambda>r. []), fresh = 1, objects = [] \<rparr>"

text \<open>
  Two histories from \<^verbatim>\<open>one_list_world\<close>. In \<^verbatim>\<open>own_history\<close> the first graph is
  constructed on the caller's list and the second on a list of its own; in
  \<^verbatim>\<open>shared_history\<close> both graphs are constructed on the caller's list.
\<close>

definition own_history :: "operation list" where
  "own_history =
     [Construct (Some 0) None, Construct None None,
      AddNode 0 (NodeList [w_node 2 [], w_node 1 []]), AddEdge 0 (OneEdge (w_edge 10 1 5)),
      AddNode 1 (OneNode (w_node 2 []))]"

definition shared_history :: "operation list" where
  "shared_history =
     [Construct (Some 0) None, Construct (Some 0) None, AddNode 0 (OneNode (w_node 2 []))]"

text \<open>A rank that falls along every edge of the example graphs.\<close>

definition depth_rank :: "ident \<Rightarrow> nat" where
  "depth_rank i = (case i of UUID w \<Rightarrow> 100 - unat w | Str s \<Rightarrow> 0)"

section \<open>Property lookup\<close>

text \<open>
  C9. \<^verbatim>\<open>get_property("id")\<close> returns the element's id whatever the property bag holds
  and whatever the flag; for any other name the stored value is returned when the key
  is present; an absent key raises \<^verbatim>\<open>KeyError\<close> when \<^verbatim>\<open>no_error\<close> is off and gives
  \<^verbatim>\<open>None\<close> when it is on.
\<close>

theorem get_property_contract:
  "get_property e ''id'' no_error = Inr (id_val (elem_id e)) \<and>
   (name \<noteq> ''id'' \<longrightarrow>
      (case dict_get (properties e) name of
         Some v \<Rightarrow> get_property e name no_error = Inr v
       | None \<Rightarrow> get_property e name False = Inl KeyError
                \<and> get_property e name True = Inr PNone))"
  by (simp add: get_property_def split: option.split)

theorem get_property_contract_witness:
  "get_property (w_node 1 [(''id'', PInt 7), (''label'', PStr ''x'')]) ''id'' False = Inr (PUuid 1)
   \<and> ''label'' \<noteq> ''id''
   \<and> get_property (w_node 1 [(''id'', PInt 7), (''label'', PStr ''x'')]) ''label'' False
       = Inr (PStr ''x'')
   \<and> ''type'' \<noteq> ''id''
   \<and> get_property (w_node 1 [(''id'', PInt 7), (''label'', PStr ''x'')]) ''type'' False
       = Inl KeyError
   \<and> get_property (w_node 1 [(''id'', PInt 7), (''label'', PStr ''x'')]) ''type'' True
       = Inr PNone"
  using get_property_contract
          [of "w_node 1 [(''id'', PInt 7), (''label'', PStr ''x'')]" False "''label''"]
        get_property_contract
          [of "w_node 1 [(''id'', PInt 7), (''label'', PStr ''x'')]" False "''type''"]
  by (simp add: w_node_def dict_get_def)

section \<open>Neighbors\<close>

lemma neighbors_loop_eq:
  "neighbors_loop i es out =
     out @ concat (map (\<lambda>e. (if i = from_id e then [to_id e] else []) @
                              (if i = to_id e then [from_id e] else [])) es)"
  by (induction es arbitrary: out) (simp_all add: Let_def)

lemma neighbors_eq:
  "get_node_neighbors g i =
     concat (map (\<lambda>e. (if i = from_id e then [to_id e] else []) @
                       (if i = to_id e then [from_id e] else [])) (edges g))"
  by (simp add: get_node_neighbors_def neighbors_loop_eq)

lemma neighbors_symmetric:
  assumes "e \<in> set (edges g)"
  shows "to_id e \<in> set (get_node_neighbors g (from_id e))
         \<and> from_id e \<in> set (get_node_neighbors g (to_id e))"
proof -
  have "to_id e \<in> set ((if from_id e = from_id e then [to_id e] else []) @
                        (if from_id e = to_id e then [from_id e] else []))"
    by simp
  moreover have "from_id e \<in> set ((if to_id e = from_id e then [to_id e] else []) @
                        (if to_id e = to_id e then [from_id e] else []))"
    by simp
  ultimately show ?thesis
    unfolding neighbors_eq set_concat using assms by fastforce
qed

lemma neighbors_self_loop:
  assumes "from_id e = x" "to_id e = x"
  shows "get_node_neighbors (g\<lparr>edges := [e]\<rparr>) x = [x, x]
     \<and> count_list (get_node_neighbors (g\<lparr>edges := es1 @ e # es2\<rparr>) x) x
           = count_list (get_node_neighbors (g\<lparr>edges := es1 @ es2\<rparr>) x) x + 2"
proof -
  define F where "F = (\<lambda>e. (if x = from_id e then [to_id e] else []) @
                       (if x = to_id e then [from_id (e::edge)] else []))"
  have nb: "get_node_neighbors (g\<lparr>edges := es\<rparr>) x = concat (map F es)" for es
    by (simp add: neighbors_eq F_def)
  have e: "F e = [x, x]"
    using assms by (simp add: F_def)
  then have "concat (map F (es1 @ e # es2)) = concat (map F es1) @ [x, x] @ concat (map F es2)"
    by simp
  then have "count_list (concat (map F (es1 @ e # es2))) x
               = count_list (concat (map F (es1 @ es2))) x + 2"
    by simp
  moreover have "concat (map F [e]) = [x, x]"
    using e by simp
  ultimately show ?thesis
    by (simp only: nb)
qed

text \<open>
  C6. \<^verbatim>\<open>get_node_neighbors(id)\<close> scans the edge sequence in order and yields, for each
  edge, \<^verbatim>\<open>to_id\<close> when \<^verbatim>\<open>from_id\<close> equals the id and then \<^verbatim>\<open>from_id\<close> when \<^verbatim>\<open>to_id\<close>
  equals the id. So for every edge of the graph each endpoint is among the neighbors of
  the other, and a self-loop on \<^verbatim>\<open>x\<close> contributes \<^verbatim>\<open>x\<close> to the neighbors of \<^verbatim>\<open>x\<close>
  exactly twice: alone it yields \<^verbatim>\<open>[x, x]\<close>, and inserted anywhere in an edge sequence it
  raises the number of occurrences of \<^verbatim>\<open>x\<close> by two.
\<close>

theorem neighbors_contract:
  "get_node_neighbors g i =
     concat (map (\<lambda>e. (if i = from_id e then [to_id e] else []) @
                       (if i = to_id e then [from_id e] else [])) (edges g))
   \<and> (\<forall>e \<in> set (edges g).
         to_id e \<in> set (get_node_neighbors g (from_id e))
         \<and> from_id e \<in> set (get_node_neighbors g (to_id e)))
   \<and> (from_id e = x \<and> to_id e = x \<longrightarrow>
         get_node_neighbors (g\<lparr>edges := [e]\<rparr>) x = [x, x]
         \<and> count_list (get_node_neighbors (g\<lparr>edges := es1 @ e # es2\<rparr>) x) x
             = count_list (get_node_neighbors (g\<lparr>edges := es1 @ es2\<rparr>) x) x + 2)"
  using neighbors_eq [of g i] neighbors_symmetric [of _ g] neighbors_self_loop [of e x g es1 es2]
  by blast

theorem neighbors_contract_witness:
  "get_node_neighbors \<lparr>nodes = [], edges = [w_edge 10 1 2, w_edge 11 2 2], all_node_ids = {}\<rparr> (UUID 2)
     = [UUID 1, UUID 2, UUID 2]
   \<and> w_edge 10 1 2 \<in> set [w_edge 10 1 2, w_edge 11 2 2]
   \<and> UUID 2 \<in> set (get_node_neighbors
         \<lparr>nodes = [], edges = [w_edge 10 1 2, w_edge 11 2 2], all_node_ids = {}\<rparr> (UUID 1))
   \<and> from_id (w_edge 11 2 2) = UUID 2 \<and> to_id (w_edge 11 2 2) = UUID 2
   \<and> count_list (get_node_neighbors
         \<lparr>nodes = [], edges = [w_edge 10 1 2, w_edge 11 2 2], all_node_ids = {}\<rparr> (UUID 2)) (UUID 2) = 2"
  using neighbors_contract [of "\<lparr>nodes = [], edges = [w_edge 10 1 2, w_edge 11 2 2], all_node_ids = {}\<rparr>"
      "UUID 2" "w_edge 11 2 2" "UUID 2" "[w_edge 10 1 2]" "[]"]
  by (simp add: w_edge_def)

section \<open>Induced edges\<close>

lemma all_edges_loop_eq:
  "all_edges_loop S es out = out @ filter (\<lambda>e. from_id e \<in> set S \<and> to_id e \<in> set S) es"
  by (induction es arbitrary: out) simp_all

lemma get_all_edges_eq:
  "get_all_edges g S = filter (\<lambda>e. from_id e \<in> set S \<and> to_id e \<in> set S) (edges g)"
  by (simp add: get_all_edges_def all_edges_loop_eq)

lemma count_list_filter:
  "count_list (filter P xs) x = (if P x then count_list xs x else 0)"
  by (induction xs) auto

lemma count_list_distinct: "distinct xs \<Longrightarrow> x \<in> set xs \<Longrightarrow> count_list xs x = 1"
  by (induction xs) auto

text \<open>
  C7. \<^verbatim>\<open>get_all_edges(node_ids)\<close> yields, in edge order, exactly the entries of the edge
  sequence whose \<^verbatim>\<open>from_id\<close> and \<^verbatim>\<open>to_id\<close> are both in \<^verbatim>\<open>node_ids\<close>: the result is the
  edge sequence restricted to the positions that hold such an edge, each position taken
  once. Every edge yielded has both endpoints in the set and is an edge of the graph; an
  edge with both endpoints in the set is yielded as many times as it stands in the edge
  sequence (\<^verbatim>\<open>add_edge\<close> does not deduplicate), so exactly once when the edge sequence
  holds it once.
\<close>

theorem all_edges_contract:
  "get_all_edges g S = filter (\<lambda>e. from_id e \<in> set S \<and> to_id e \<in> set S) (edges g)
   \<and> get_all_edges g S =
       nths (edges g) {k. k < length (edges g) \<and> from_id (edges g ! k) \<in> set S
                            \<and> to_id (edges g ! k) \<in> set S}
   \<and> (\<forall>e \<in> set (get_all_edges g S).
         from_id e \<in> set S \<and> to_id e \<in> set S \<and> e \<in> set (edges g))
   \<and> (from_id e \<in> set S \<and> to_id e \<in> set S \<longrightarrow>
         count_list (get_all_edges g S) e = count_list (edges g) e)
   \<and> (from_id e \<in> set S \<and> to_id e \<in> set S \<and> e \<in> set (edges g) \<and> distinct (edges g) \<longrightarrow>
         count_list (get_all_edges g S) e = 1)"
proof -
  have "get_all_edges g S =
       nths (edges g) {k. k < length (edges g) \<and> from_id (edges g ! k) \<in> set S
                            \<and> to_id (edges g ! k) \<in> set S}"
    unfolding get_all_edges_eq by (rule filter_eq_nths)
  moreover have "\<forall>e \<in> set (get_all_edges g S).
         from_id e \<in> set S \<and> to_id e \<in> set S \<and> e \<in> set (edges g)"
    by (simp add: get_all_edges_eq)
  moreover have "from_id e \<in> set S \<and> to_id e \<in> set S \<longrightarrow>
         count_list (get_all_edges g S) e = count_list (edges g) e"
    by (simp add: get_all_edges_eq count_list_filter)
  moreover have "from_id e \<in> set S \<and> to_id e \<in> set S \<and> e \<in> set (edges g) \<and> distinct (edges g) \<longrightarrow>
         count_list (get_all_edges g S) e = 1"
    by (simp add: get_all_edges_eq count_list_filter count_list_distinct)
  ultimately show ?thesis
    using get_all_edges_eq [of g S] by blast
qed

theorem all_edges_contract_witness:
  "get_all_edges \<lparr>nodes = [], edges = [w_edge 10 1 2, w_edge 11 2 3, w_edge 12 2 1], all_node_ids = {}\<rparr>
       [UUID 1, UUID 2] = [w_edge 10 1 2, w_edge 12 2 1]
   \<and> from_id (w_edge 12 2 1) \<in> set [UUID 1, UUID 2]
   \<and> to_id (w_edge 12 2 1) \<in> set [UUID 1, UUID 2]
   \<and> w_edge 12 2 1 \<in> set [w_edge 10 1 2, w_edge 11 2 3, w_edge 12 2 1]
   \<and> distinct [w_edge 10 1 2, w_edge 11 2 3, w_edge 12 2 1]
   \<and> count_list (get_all_edges
         \<lparr>nodes = [], edges = [w_edge 10 1 2, w_edge 11 2 3, w_edge 12 2 1], all_node_ids = {}\<rparr>
         [UUID 1, UUID 2]) (w_edge 12 2 1) = 1"
  using all_edges_contract
    [of "\<lparr>nodes = [], edges = [w_edge 10 1 2, w_edge 11 2 3, w_edge 12 2 1], all_node_ids = {}\<rparr>"
        "[UUID 1, UUID 2]" "w_edge 12 2 1"]
  by (simp add: w_edge_def)

section \<open>Adding nodes\<close>

lemma add_node_loop_nodes:
  "add_node_loop g ns added = (g', added') \<Longrightarrow>
     \<exists>new. added' = added @ new \<and> nodes g' = nodes g @ new \<and> edges g' = edges g
       \<and> all_node_ids g' = all_node_ids g \<union> elem_id ` set new
       \<and> subseq new ns
       \<and> distinct (map elem_id new)
       \<and> elem_id ` set new = elem_id ` set ns - all_node_ids g"
proof (induction ns arbitrary: g added)
  case Nil
  then show ?case by simp
next
  case (Cons n ns)
  show ?case
  proof (cases "elem_id n \<in> all_node_ids g")
    case True
    with Cons.prems have "add_node_loop g ns added = (g', added')" by simp
    from Cons.IH [OF this] obtain new where
      n: "added' = added @ new" "nodes g' = nodes g @ new" "edges g' = edges g"
         "all_node_ids g' = all_node_ids g \<union> elem_id ` set new" "subseq new ns"
         "distinct (map elem_id new)" "elem_id ` set new = elem_id ` set ns - all_node_ids g"
      by blast
    have "elem_id ` set new = elem_id ` set (n # ns) - all_node_ids g"
      using n(7) True by auto
    moreover have "subseq new (n # ns)"
      using n(5) by (rule list_emb_Cons)
    ultimately show ?thesis
      using n(1,2,3,4,6) by blast
  next
    case False
    let ?g = "g\<lparr>nodes := nodes g @ [n], all_node_ids := insert (elem_id n) (all_node_ids g)\<rparr>"
    from False Cons.prems have "add_node_loop ?g ns (added @ [n]) = (g', added')" by simp
    from Cons.IH [OF this] obtain new where
      n: "added' = (added @ [n]) @ new" "nodes g' = nodes ?g @ new" "edges g' = edges ?g"
         "all_node_ids g' = all_node_ids ?g \<union> elem_id ` set new" "subseq new ns"
         "distinct (map elem_id new)" "elem_id ` set new = elem_id ` set ns - all_node_ids ?g"
      by blast
    have 1: "added' = added @ (n # new)" using n(1) by simp
    have 2: "nodes g' = nodes g @ (n # new)" using n(2) by simp
    have 3: "edges g' = edges g" using n(3) by simp
    have 4: "all_node_ids g' = all_node_ids g \<union> elem_id ` set (n # new)" using n(4) by auto
    have 5: "subseq (n # new) (n # ns)" using n(5) by simp
    have 6: "distinct (map elem_id (n # new))" using n(6,7) by auto
    have 7: "elem_id ` set (n # new) = elem_id ` set (n # ns) - all_node_ids g"
      using n(7) False by auto
    from 1 2 3 4 5 6 7 show ?thesis by blast
  qed
qed


text \<open>
  C5. \<^verbatim>\<open>add_node\<close> with a node whose id is in the membership index changes nothing
  (the node sequence keeps its length) and returns the empty list; with a node whose id
  is not in the index it appends the node, the node sequence grows by one, and the
  singleton list of that node is returned. For a list argument the returned list is
  exactly what was appended to the node sequence: a subsequence of the input, one node
  for each id of the input that the index did not hold.
\<close>

theorem add_node_contract:
  "(elem_id n \<in> all_node_ids g \<longrightarrow>
      add_node g (OneNode n) = (g, [])
      \<and> length (nodes (fst (add_node g (OneNode n)))) = length (nodes g))
   \<and> (elem_id n \<notin> all_node_ids g \<longrightarrow>
      add_node g (OneNode n) =
        (g\<lparr>nodes := nodes g @ [n], all_node_ids := insert (elem_id n) (all_node_ids g)\<rparr>, [n])
      \<and> length (nodes (fst (add_node g (OneNode n)))) = length (nodes g) + 1)
   \<and> (add_node g (NodeList ns) = (g', added) \<longrightarrow>
      nodes g' = nodes g @ added
      \<and> subseq added ns
      \<and> distinct (map elem_id added)
      \<and> elem_id ` set added = elem_id ` set ns - all_node_ids g)"
proof -
  have "nodes g' = nodes g @ added \<and> subseq added ns \<and> distinct (map elem_id added)
        \<and> elem_id ` set added = elem_id ` set ns - all_node_ids g"
    if "add_node g (NodeList ns) = (g', added)"
    using add_node_loop_nodes [of g ns "[]" g' added] that by (auto simp: add_node_def)
  then show ?thesis
    by (simp add: add_node_def)
qed

theorem add_node_contract_witness:
  "elem_id (w_node 1 [(''name'', PStr ''other'')]) \<in> all_node_ids single_graph
   \<and> add_node single_graph (OneNode (w_node 1 [(''name'', PStr ''other'')]))
       = (single_graph, [])
   \<and> elem_id (w_node 2 []) \<notin> all_node_ids single_graph
   \<and> add_node single_graph (OneNode (w_node 2 []))
       = (\<lparr>nodes = [w_node 1 [], w_node 2 []], edges = [], all_node_ids = {UUID 1, UUID 2}\<rparr>,
          [w_node 2 []])
   \<and> add_node single_graph
         (NodeList [w_node 2 [], w_node 1 [], w_node 2 [(''name'', PStr ''again'')], w_node 3 []])
       = (\<lparr>nodes = [w_node 1 [], w_node 2 [], w_node 3 []], edges = [],
           all_node_ids = {UUID 1, UUID 2, UUID 3}\<rparr>,
          [w_node 2 [], w_node 3 []])
   \<and> subseq [w_node 2 [], w_node 3 []]
         [w_node 2 [], w_node 1 [], w_node 2 [(''name'', PStr ''again'')], w_node 3 []]"
  using add_node_contract [of "w_node 1 [(''name'', PStr ''other'')]"
          single_graph
          "[w_node 2 [], w_node 1 [], w_node 2 [(''name'', PStr ''again'')], w_node 3 []]"
          "\<lparr>nodes = [w_node 1 [], w_node 2 [], w_node 3 []], edges = [],
            all_node_ids = {UUID 1, UUID 2, UUID 3}\<rparr>"
          "[w_node 2 [], w_node 3 []]"]
        add_node_contract [of "w_node 2 []" single_graph]
  by (auto simp: add_node_def single_graph_def w_node_def)

section \<open>The membership index\<close>

lemma fold_insert_ids: "fold (\<lambda>x s. insert (elem_id x) s) l A = A \<union> elem_id ` set l"
  by (induction l arbitrary: A) auto

lemma index_add_node:
  assumes "all_node_ids g = elem_id ` set (nodes g)"
  shows "all_node_ids (fst (add_node g a)) = elem_id ` set (nodes (fst (add_node g a)))"
proof -
  obtain g' added where r: "add_node_loop g (case a of OneNode n \<Rightarrow> [n] | NodeList ns \<Rightarrow> ns) [] = (g', added)"
    by (cases "add_node_loop g (case a of OneNode n \<Rightarrow> [n] | NodeList ns \<Rightarrow> ns) []") blast
  from add_node_loop_nodes [OF r] assms have "all_node_ids g' = elem_id ` set (nodes g')"
    by auto
  with r show ?thesis by (simp add: add_node_def)
qed

lemma init_objects:
  "\<exists>h. objects (InternalGraph_init w ns es) = objects w @ [h]
      \<and> ids h = elem_id ` set (node_lists (InternalGraph_init w ns es) (nodes_at h))
      \<and> (\<forall>r. r \<noteq> nodes_at h \<longrightarrow> node_lists (InternalGraph_init w ns es) r = node_lists w r)"
  by (auto simp: InternalGraph_init_def new_node_list_def new_edge_list_def Let_def fold_insert_ids
        split: option.splits prod.splits if_splits)

lemma index_kept_init:
  assumes "index_kept w"
  shows "index_kept (InternalGraph_init w ns es)"
proof -
  let ?w = "InternalGraph_init w ns es"
  from init_objects [of w ns es] obtain h where
    h: "objects ?w = objects w @ [h]"
       "ids h = elem_id ` set (node_lists ?w (nodes_at h))"
       "\<forall>r. r \<noteq> nodes_at h \<longrightarrow> node_lists ?w r = node_lists w r"
    by blast
  have "index_exact ?w k" if k: "k < length (objects ?w)" and own: "owns_nodes ?w k" for k
  proof (cases "k < length (objects w)")
    case True
    have same: "objects ?w ! j = objects w ! j" if "j < length (objects w)" for j
      using that by (simp add: h(1) nth_append)
    have "owns_nodes w k"
      unfolding owns_nodes_def
    proof (intro allI impI)
      fix j assume j: "j < length (objects w)" "j \<noteq> k"
      then have "j < length (objects ?w)" by (simp add: h(1))
      with own j(2) have "nodes_at (objects ?w ! j) \<noteq> nodes_at (objects ?w ! k)"
        by (simp add: owns_nodes_def)
      with j(1) True show "nodes_at (objects w ! j) \<noteq> nodes_at (objects w ! k)"
        by (simp add: same)
    qed
    with assms True have ex: "index_exact w k"
      by (simp add: index_kept_def)
    have "length (objects w) < length (objects ?w)" "length (objects w) \<noteq> k"
      using True by (simp_all add: h(1))
    with own have "nodes_at (objects ?w ! length (objects w)) \<noteq> nodes_at (objects ?w ! k)"
      by (simp add: owns_nodes_def)
    then have "nodes_at (objects w ! k) \<noteq> nodes_at h"
      using True by (simp add: h(1) nth_append)
    with h(3) have "node_lists ?w (nodes_at (objects w ! k)) = node_lists w (nodes_at (objects w ! k))"
      by simp
    with ex True show ?thesis
      by (simp add: index_exact_def same)
  next
    case False
    with k have "k = length (objects w)" by (simp add: h(1))
    with h(2) show ?thesis
      by (simp add: index_exact_def h(1))
  qed
  then show ?thesis by (simp add: index_kept_def)
qed

lemma index_kept_add_node:
  assumes "index_kept w" "j < length (objects w)"
  shows "index_kept (fst (add_node_at w j a))"
proof -
  let ?h = "objects w ! j"
  let ?g = "fst (add_node (view w ?h) a)"
  let ?w = "fst (add_node_at w j a)"
  have objs: "objects ?w = (objects w)[j := ?h\<lparr>ids := all_node_ids ?g\<rparr>]"
    and lists: "node_lists ?w = (node_lists w)(nodes_at ?h := nodes ?g)"
    by (simp_all add: add_node_at_def Let_def split: prod.splits)
  have at: "nodes_at (objects ?w ! i) = nodes_at (objects w ! i)" if "i < length (objects w)" for i
    using that by (cases "i = j") (simp_all add: objs)
  have "index_exact ?w k" if k: "k < length (objects ?w)" and own: "owns_nodes ?w k" for k
  proof -
    from k have k': "k < length (objects w)" by (simp add: objs)
    have "owns_nodes w k"
      unfolding owns_nodes_def
    proof (intro allI impI)
      fix i assume i: "i < length (objects w)" "i \<noteq> k"
      with own have "nodes_at (objects ?w ! i) \<noteq> nodes_at (objects ?w ! k)"
        by (simp add: owns_nodes_def objs)
      with i(1) k' show "nodes_at (objects w ! i) \<noteq> nodes_at (objects w ! k)"
        by (simp add: at)
    qed
    with assms(1) k' have ex: "index_exact w k"
      by (simp add: index_kept_def)
    show ?thesis
    proof (cases "k = j")
      case True
      from ex True have "all_node_ids (view w ?h) = elem_id ` set (nodes (view w ?h))"
        by (simp add: index_exact_def view_def)
      from index_add_node [OF this, of a] True k' show ?thesis
        by (simp add: index_exact_def objs lists)
    next
      case False
      have "j < length (objects ?w)" "j \<noteq> k"
        using assms(2) False by (simp_all add: objs)
      with own have "nodes_at (objects ?w ! j) \<noteq> nodes_at (objects ?w ! k)"
        unfolding owns_nodes_def by blast
      then have "nodes_at ?h \<noteq> nodes_at (objects w ! k)"
        using at [OF assms(2)] at [OF k'] by simp
      with ex False k' show ?thesis
        by (simp add: index_exact_def objs lists)
    qed
  qed
  then show ?thesis by (simp add: index_kept_def)
qed

lemma index_kept_add_edge:
  assumes "index_kept w"
  shows "index_kept (add_edge_at w j a)"
  using assms
  by (simp add: index_kept_def owns_nodes_def index_exact_def add_edge_at_def Let_def)

lemma index_kept_step: "index_kept w \<Longrightarrow> index_kept (step w op)"
  by (cases op) (simp_all add: index_kept_init index_kept_add_node index_kept_add_edge)

lemma index_kept_run: "index_kept w \<Longrightarrow> index_kept (foldl step w ops)"
  by (induction ops arbitrary: w) (simp_all add: index_kept_step)

text \<open>
  C4, as amended. Start with no graph object and apply any sequence of constructor calls
  and of \<^verbatim>\<open>add_node\<close> and \<^verbatim>\<open>add_edge\<close> calls (the empty graph is the constructor without
  arguments). Then every graph object that holds its node list alone, no other graph
  object having been constructed on the same list object, has a membership index that
  is exactly the set of the ids of the nodes in its node sequence.
\<close>

theorem index_invariant:
  assumes "objects w0 = []"
  shows "\<forall>k < length (objects (foldl step w0 ops)).
           owns_nodes (foldl step w0 ops) k \<longrightarrow> index_exact (foldl step w0 ops) k"
proof -
  have "index_kept w0"
    using assms by (simp add: index_kept_def)
  then have "index_kept (foldl step w0 ops)"
    by (rule index_kept_run)
  then show ?thesis
    by (simp add: index_kept_def)
qed


lemma own_history_run:
  "objects (foldl step one_list_world own_history)
     = [\<lparr>nodes_at = 0, edges_at = 1, ids = {UUID 2, UUID 1}\<rparr>,
        \<lparr>nodes_at = 2, edges_at = 3, ids = {UUID 2}\<rparr>]
   \<and> node_lists (foldl step one_list_world own_history) 0 = [w_node 1 [], w_node 2 []]
   \<and> node_lists (foldl step one_list_world own_history) 2 = [w_node 2 []]"
  by (simp add: own_history_def one_list_world_def InternalGraph_init_def new_node_list_def
        new_edge_list_def add_node_at_def add_edge_at_def add_node_def add_edge_def view_def
        w_node_def w_edge_def Let_def)

theorem index_invariant_witness:
  "objects one_list_world = []
   \<and> length (objects (foldl step one_list_world own_history)) = 2
   \<and> owns_nodes (foldl step one_list_world own_history) 0
   \<and> index_exact (foldl step one_list_world own_history) 0
   \<and> ids (objects (foldl step one_list_world own_history) ! 0) = {UUID 2, UUID 1}
   \<and> map elem_id (node_lists (foldl step one_list_world own_history) 0) = [UUID 1, UUID 2]"
proof -
  have e: "objects one_list_world = []"
    by (simp add: one_list_world_def)
  have own: "owns_nodes (foldl step one_list_world own_history) 0"
    using own_history_run by (simp add: owns_nodes_def less_Suc_eq)
  from index_invariant [OF e, of own_history] own_history_run own
  have "index_exact (foldl step one_list_world own_history) 0"
    by simp
  with e own own_history_run show ?thesis
    by (simp add: w_node_def)
qed

text \<open>
  Without the proviso the index can fall out of step. Two graphs are constructed on the
  list object 0, which holds node 1, and node 2 is added to the first graph. The call
  appends to the shared list, so the second graph, constructed and never operated on, has
  the nodes 1 and 2 in its node sequence and only the id of node 1 in its index.
\<close>

theorem index_invariant_counterexample:
  "objects one_list_world = []
   \<and> objects (foldl step one_list_world shared_history)
       = [\<lparr>nodes_at = 0, edges_at = 1, ids = {UUID 2, UUID 1}\<rparr>,
          \<lparr>nodes_at = 0, edges_at = 2, ids = {UUID 1}\<rparr>]
   \<and> map elem_id (node_lists (foldl step one_list_world shared_history) 0) = [UUID 1, UUID 2]
   \<and> \<not> index_exact (foldl step one_list_world shared_history) 1"
  by (simp add: shared_history_def one_list_world_def InternalGraph_init_def new_node_list_def
        new_edge_list_def add_node_at_def add_edge_at_def add_node_def add_edge_def view_def
        index_exact_def w_node_def w_edge_def Let_def)

section \<open>Serialization\<close>

lemma update_fresh: "k \<notin> fst ` set d \<Longrightarrow> AList.update k v d = d @ [(k, v)]"
  by (induction d) auto

lemma split_loop_distinct:
  "distinct (map fst items) \<Longrightarrow> fst ` set items \<inter> fst ` set l = {}
   \<Longrightarrow> fst ` set items \<inter> fst ` set r = {}
   \<Longrightarrow> split_loop items sl l r =
         (l @ filter (\<lambda>(k, v). k \<in> set sl) items, r @ filter (\<lambda>(k, v). k \<notin> set sl) items)"
proof (induction items arbitrary: l r)
  case Nil
  then show ?case by simp
next
  case (Cons p items)
  obtain k v where p: "p = (k, v)" by (cases p)
  from Cons.prems p have fresh: "k \<notin> fst ` set l" "k \<notin> fst ` set r" "k \<notin> fst ` set items"
    and d: "distinct (map fst items)"
    and dl: "fst ` set items \<inter> fst ` set l = {}" and dr: "fst ` set items \<inter> fst ` set r = {}"
    by auto
  show ?case
  proof (cases "k \<in> set sl")
    case True
    have "fst ` set items \<inter> fst ` set (l @ [(k, v)]) = {}"
      using dl fresh(3) by auto
    from Cons.IH [OF d this dr] True p fresh show ?thesis
      by (simp add: dict_set_def update_fresh)
  next
    case False
    have "fst ` set items \<inter> fst ` set (r @ [(k, v)]) = {}"
      using dr fresh(3) by auto
    from Cons.IH [OF d dl this] False p fresh show ?thesis
      by (simp add: dict_set_def update_fresh)
  qed
qed

lemma split_dict_distinct:
  "distinct (map fst d) \<Longrightarrow> sl \<noteq> [] \<Longrightarrow>
   split_dict d sl = Inr (filter (\<lambda>(k, v). k \<in> set sl) d, filter (\<lambda>(k, v). k \<notin> set sl) d)"
  by (simp add: split_dict_def split_loop_distinct)

lemma filter_update_promoted:
  "k \<in> S \<Longrightarrow> filter (\<lambda>(k', v). k' \<notin> S) (AList.update k v d) = filter (\<lambda>(k', v). k' \<notin> S) d"
  by (induction d) auto

lemma map_of_filter_keys:
  "map_of (filter (\<lambda>(k, v). k \<in> S) d) k = (if k \<in> S then map_of d k else None)"
  by (induction d) auto

lemma serialize_distinct:
  assumes "distinct (map fst (dict_method e))" "sl \<noteq> []" "''short_details'' \<notin> set sl"
  shows "\<exists>d. serialize dict_method e (Some sl) = Inr d
           \<and> dict_get d ''short_details''
               = Some (PDict (filter (\<lambda>(k, v). k \<notin> set sl) (dict_method e)))
           \<and> (\<forall>k \<in> set sl. dict_get d k = dict_get (dict_method e) k)"
  using assms
  by (auto simp: serialize_def split_dict_distinct dict_or_def dict_set_def dict_get_def
        update_conv' map_of_filter_keys)

lemma element_dict_distinct:
  "distinct (map fst (properties e)) \<Longrightarrow> distinct (map fst (element_dict e))"
  by (simp add: element_dict_def dict_or_def dict_set_def distinct_update)

lemma edge_dict_distinct:
  "distinct (map fst (properties e)) \<Longrightarrow> distinct (map fst (edge_dict e))"
  by (simp add: edge_dict_def dict_or_def dict_set_def distinct_update)

lemma node_serialize_default:
  assumes "distinct (dict_keys (properties n))" "sl = None \<or> sl = Some []"
  shows "\<exists>d. node_serialize n sl = Inr d
           \<and> dict_get d ''id'' = Some (id_val (elem_id n))
           \<and> dict_get d ''short_details''
               = Some (PDict (filter (\<lambda>(k, v). k \<notin> set default_split_list) (properties n)))"
proof -
  have same: "node_serialize n sl = serialize element_dict n (Some default_split_list)"
    using assms(2) by (auto simp: node_serialize_def serialize_def default_split_list_def)
  have d: "distinct (map fst (element_dict n))"
    using assms(1) by (simp add: element_dict_distinct dict_keys_def)
  have "default_split_list \<noteq> []" "''short_details'' \<notin> set default_split_list"
    by (simp_all add: default_split_list_def)
  from serialize_distinct [of element_dict n default_split_list, OF d this] obtain d where
    r: "serialize element_dict n (Some default_split_list) = Inr d"
    and sd: "dict_get d ''short_details''
       = Some (PDict (filter (\<lambda>(k, v). k \<notin> set default_split_list) (element_dict n)))"
    and pr: "\<forall>k \<in> set default_split_list. dict_get d k = dict_get (element_dict n) k"
    by blast
  have "filter (\<lambda>(k, v). k \<notin> set default_split_list) (element_dict n)
          = filter (\<lambda>(k, v). k \<notin> set default_split_list) (properties n)"
  proof -
    have "''id'' \<in> set default_split_list"
      by (simp add: default_split_list_def)
    then show ?thesis
      by (simp add: element_dict_def dict_or_def dict_set_def filter_update_promoted)
  qed
  moreover have "dict_get d ''id'' = Some (id_val (elem_id n))"
    using pr by (simp add: default_split_list_def element_dict_def dict_or_def dict_set_def
          dict_get_def update_conv')
  ultimately show ?thesis using same r sd by simp
qed

lemma edge_serialize_default:
  assumes "distinct (dict_keys (properties e))"
  shows "\<exists>d. edge_serialize e = Inr d
           \<and> dict_get d ''id'' = Some (id_val (elem_id e))
           \<and> dict_get d ''start'' = Some (id_val (from_id e))
           \<and> dict_get d ''end'' = Some (id_val (to_id e))
           \<and> dict_get d ''short_details''
               = Some (PDict (filter (\<lambda>(k, v). k \<notin> set edge_split_list) (properties e)))"
proof -
  have d: "distinct (map fst (edge_dict e))"
    using assms(1) by (simp add: edge_dict_distinct dict_keys_def)
  have "edge_split_list \<noteq> []" "''short_details'' \<notin> set edge_split_list"
    by (simp_all add: edge_split_list_def)
  from serialize_distinct [of edge_dict e edge_split_list, OF d this] obtain d where
    r: "serialize edge_dict e (Some edge_split_list) = Inr d"
    and sd: "dict_get d ''short_details''
       = Some (PDict (filter (\<lambda>(k, v). k \<notin> set edge_split_list) (edge_dict e)))"
    and pr: "\<forall>k \<in> set edge_split_list. dict_get d k = dict_get (edge_dict e) k"
    by blast
  have "filter (\<lambda>(k, v). k \<notin> set edge_split_list) (edge_dict e)
          = filter (\<lambda>(k, v). k \<notin> set edge_split_list) (properties e)"
  proof -
    have "''id'' \<in> set edge_split_list" "''start'' \<in> set edge_split_list"
      "''end'' \<in> set edge_split_list"
      by (simp_all add: edge_split_list_def)
    then show ?thesis
      by (simp add: edge_dict_def dict_or_def dict_set_def filter_update_promoted)
  qed
  moreover have "dict_get d ''id'' = Some (id_val (elem_id e))"
    "dict_get d ''start'' = Some (id_val (from_id e))"
    "dict_get d ''end'' = Some (id_val (to_id e))"
    using pr by (simp_all add: edge_split_list_def edge_dict_def dict_or_def dict_set_def
          dict_get_def update_conv')
  ultimately show ?thesis using r sd by (simp add: edge_serialize_def)
qed

text \<open>
  C8. Serialized with the default list of promoted keys (\<^verbatim>\<open>split_list\<close> absent or
  empty for a node; an edge always uses its own default), the result has the element's
  id under \<^verbatim>\<open>"id"\<close>, also when the property bag has a key \<^verbatim>\<open>"id"\<close> of its own, and under
  \<^verbatim>\<open>"short_details"\<close> the property bag without the promoted keys, in the order of the
  bag; for an edge \<^verbatim>\<open>"start"\<close> is its \<^verbatim>\<open>from_id\<close> and \<^verbatim>\<open>"end"\<close> its \<^verbatim>\<open>to_id\<close>. The
  premise is the representation invariant of a dictionary: its keys are distinct.
\<close>

theorem serialize_contract:
  "(distinct (dict_keys (properties n)) \<and> (sl = None \<or> sl = Some []) \<longrightarrow>
      (\<exists>d. node_serialize n sl = Inr d
         \<and> dict_get d ''id'' = Some (id_val (elem_id n))
         \<and> dict_get d ''short_details''
             = Some (PDict (filter (\<lambda>(k, v). k \<notin> set default_split_list) (properties n)))))
   \<and> (distinct (dict_keys (properties e)) \<longrightarrow>
      (\<exists>d. edge_serialize e = Inr d
         \<and> dict_get d ''id'' = Some (id_val (elem_id e))
         \<and> dict_get d ''start'' = Some (id_val (from_id e))
         \<and> dict_get d ''end'' = Some (id_val (to_id e))
         \<and> dict_get d ''short_details''
             = Some (PDict (filter (\<lambda>(k, v). k \<notin> set edge_split_list) (properties e)))))"
  using node_serialize_default [of n sl] edge_serialize_default [of e] by blast


theorem serialize_contract_witness:
  "distinct (dict_keys (properties
       (w_node 1 [(''label'', PStr ''L''), (''name'', PStr ''A''), (''id'', PInt 7)])))
   \<and> node_serialize (w_node 1 [(''label'', PStr ''L''), (''name'', PStr ''A''), (''id'', PInt 7)]) None
       = Inr [(''label'', PStr ''L''), (''id'', PUuid 1),
              (''short_details'', PDict [(''name'', PStr ''A'')])]
   \<and> distinct (dict_keys (properties
       ((w_edge 10 1 2)\<lparr>properties := [(''name'', PStr ''ab''), (''type'', PStr ''t'')]\<rparr>)))
   \<and> edge_serialize ((w_edge 10 1 2)\<lparr>properties := [(''name'', PStr ''ab''), (''type'', PStr ''t'')]\<rparr>)
       = Inr [(''type'', PStr ''t''), (''id'', PUuid 10), (''start'', PUuid 1), (''end'', PUuid 2),
              (''short_details'', PDict [(''name'', PStr ''ab'')])]"
  using serialize_contract
          [of "w_node 1 [(''label'', PStr ''L''), (''name'', PStr ''A''), (''id'', PInt 7)]" None
              "(w_edge 10 1 2)\<lparr>properties := [(''name'', PStr ''ab''), (''type'', PStr ''t'')]\<rparr>"]
  by (simp add: w_node_def w_edge_def dict_keys_def node_serialize_def edge_serialize_def
        serialize_def split_dict_def default_split_list_def edge_split_list_def
        element_dict_def edge_dict_def dict_or_def dict_set_def)

section \<open>Property-name enumeration\<close>

lemma element_iter_eq:
  "element_iter e = PStr ` set (dict_keys (properties e)) \<union> {id_val (elem_id e)}"
  by (simp add: element_iter_def)

lemma element_iter_has_id_key:
  "PStr ''id'' \<in> element_iter e
     \<longleftrightarrow> ''id'' \<in> set (dict_keys (properties e)) \<or> elem_id e = Str ''id''"
  by (cases "elem_id e") (auto simp: element_iter_eq)

lemma element_dict_keys: "set (dict_keys (element_dict e)) = set (dict_keys (properties e)) \<union> {''id''}"
  by (simp add: element_dict_def dict_or_def dict_set_def dict_keys_def dom_update)

lemma node_property_names_eq:
  "get_all_node_property_names g
     = (\<Union>n \<in> set (nodes g). set (dict_keys (properties n)) \<union> {''id''})"
  by (simp add: get_all_node_property_names_def element_dict_keys)

text \<open>
  C3. Iterating an element is documented to give the names to feed to
  \<^verbatim>\<open>get_property\<close>: the keys of the property bag and the literal name \<^verbatim>\<open>"id"\<close>. The code
  appends \<^verbatim>\<open>self.id\<close>, the value of the id, instead of the name. For the node with id
  \<^verbatim>\<open>UUID 1\<close> and the single property \<^verbatim>\<open>name\<close> the iteration yields \<^verbatim>\<open>name\<close> and the
  UUID, and not \<^verbatim>\<open>"id"\<close>; the sibling enumeration over \<^verbatim>\<open>__dict__()\<close>,
  \<^verbatim>\<open>get_all_node_property_names\<close>, does contain \<^verbatim>\<open>"id"\<close> for the same node.
\<close>

theorem element_iter_yields_id_value:
  "element_iter (w_node 1 [(''name'', PStr ''A'')]) = {PStr ''name'', PUuid 1}
   \<and> PStr ''id'' \<notin> element_iter (w_node 1 [(''name'', PStr ''A'')])
   \<and> get_all_node_property_names named_graph
       = {''name'', ''id''}"
  by (auto simp: element_iter_eq node_property_names_eq w_node_def dict_keys_def
        named_graph_def)

section \<open>Lookup by id\<close>

lemma getitem_KNode: "getitem g (KNode n) = None"
  by (simp add: getitem_def find_None_iff)

lemma getitem_KEdge: "getitem g (KEdge e) = None"
  by (simp add: getitem_def find_None_iff)

lemma getitem_KId:
  "getitem g (KId i) =
     (case find (\<lambda>x. elem_id x = i) (nodes g) of
        Some x \<Rightarrow> Some (ENode x)
      | None \<Rightarrow> map_option EEdge (find (\<lambda>x. elem_id x = i) (edges g)))"
  by (simp add: getitem_def split: option.split)

lemma getitem_KId_id: "getitem g (KId i) = Some x \<Longrightarrow> ent_id x = i"
  by (auto simp: getitem_KId find_Some_iff split: option.splits)

text \<open>
  C2. Indexing the graph with a raw id scans the nodes and then the edges and returns
  the first element with that id. Indexing with an element is meant to look up the
  element's id, but the \<^verbatim>\<open>Node\<close> and \<^verbatim>\<open>Edge\<close> branches compare each scanned id with the
  element itself, which never holds: looking up a node or an edge of the graph by
  passing the element returns \<^verbatim>\<open>None\<close>, while its raw id finds it.
\<close>

theorem getitem_entity_returns_none:
  "getitem loop_graph (KNode (w_node 1 [])) = None
   \<and> getitem loop_graph (KEdge (w_edge 10 1 1)) = None
   \<and> getitem loop_graph (KId (UUID 1))
       = Some (ENode (w_node 1 []))
   \<and> getitem loop_graph (KId (UUID 10))
       = Some (EEdge (w_edge 10 1 1))"
  by (simp add: getitem_def loop_graph_def w_node_def w_edge_def)

section \<open>Descendant discovery: the steps of a run\<close>

lemma str_find_negative: "str_find s c < 0 \<longleftrightarrow> c \<notin> set s"
  by (induction s) (auto simp: Let_def)

lemma str_find_lower: "- 1 \<le> str_find s c"
  by (induction s) (auto simp: Let_def)

lemma ent_get_property_label:
  "ent_get_property f ''label'' False =
     (case dict_get (ent_properties f) ''label'' of None \<Rightarrow> Inl KeyError | Some v \<Rightarrow> Inr v)"
  by (cases f) (simp_all add: get_property_def)

lemma label_find_Inr:
  "label_find f = Inr pos \<longleftrightarrow>
     (\<exists>s. dict_get (ent_properties f) ''label'' = Some (PStr s) \<and> pos = str_find s CHR '':'')"
  by (auto simp: label_find_def ent_get_property_label split: option.splits pyval.splits)

lemma label_find_KeyError:
  "label_find f = Inl KeyError \<longleftrightarrow> dict_get (ent_properties f) ''label'' = None"
  by (auto simp: label_find_def ent_get_property_label split: option.splits pyval.splits)

lemma label_find_Inl:
  "label_find f = Inl err \<Longrightarrow>
     (err = KeyError \<and> dict_get (ent_properties f) ''label'' = None)
     \<or> (err = AttributeError
          \<and> (\<exists>v. dict_get (ent_properties f) ''label'' = Some v \<and> (\<forall>s. v \<noteq> PStr s)))"
  by (auto simp: label_find_def ent_get_property_label split: option.splits pyval.splits)

lemma label_find_colon:
  "label_find f = Inr pos \<Longrightarrow> colon_label f \<longleftrightarrow> \<not> pos < 0"
  by (auto simp: label_find_Inr colon_label_def str_find_negative)

lemma get_all_node_parents_0: "get_all_node_parents 0 g start P = None"
  by simp

lemma get_all_node_parents_Suc:
  "get_all_node_parents (Suc n) g start P =
     (if out_targets g (ent_id start) = [] then Some (Inr None)
      else parents_loop n g P (out_targets g (ent_id start)) 0)"
  by (simp add: Let_def)

lemma parents_loop_0: "parents_loop 0 g P tot i = None"
  by simp

lemma parents_loop_Suc:
  "parents_loop (Suc n) g P tot i =
     (if length tot \<le> i then Some (Inr (Some tot))
      else
        (case tot ! i of
           None \<Rightarrow> Some (Inl AttributeError)
         | Some found_node \<Rightarrow>
             (case label_find found_node of
                Inl err \<Rightarrow> Some (Inl err)
              | Inr pos \<Rightarrow>
                  if pos < 0 then parents_loop n g P tot (Suc i)
                  else if not_in_parents P found_node then
                    (case get_all_node_parents n g found_node (Some tot) of
                       None \<Rightarrow> None
                     | Some (Inl err) \<Rightarrow> Some (Inl err)
                     | Some (Inr children) \<Rightarrow>
                         parents_loop n g P (merge_children tot children) (Suc i))
                  else parents_loop n g P tot (Suc i))))"
  by simp

declare get_all_node_parents.simps [simp del] parents_loop.simps [simp del]

lemma parents_loop_Suc_cases:
  assumes "parents_loop (Suc n) g P tot i = res"
  obtains
    (finished) "length tot \<le> i" "res = Some (Inr (Some tot))"
  | (no_element) "i < length tot" "tot ! i = None" "res = Some (Inl AttributeError)"
  | (label_error) f err where "i < length tot" "tot ! i = Some f" "label_find f = Inl err"
      "res = Some (Inl err)"
  | (skip) f pos where "i < length tot" "tot ! i = Some f" "label_find f = Inr pos"
      "pos < 0 \<or> \<not> not_in_parents P f" "parents_loop n g P tot (Suc i) = res"
  | (unfinished) f pos where "i < length tot" "tot ! i = Some f" "label_find f = Inr pos"
      "\<not> pos < 0" "not_in_parents P f" "get_all_node_parents n g f (Some tot) = None"
      "res = None"
  | (raised) f pos err where "i < length tot" "tot ! i = Some f" "label_find f = Inr pos"
      "\<not> pos < 0" "not_in_parents P f" "get_all_node_parents n g f (Some tot) = Some (Inl err)"
      "res = Some (Inl err)"
  | (merged) f pos children where "i < length tot" "tot ! i = Some f" "label_find f = Inr pos"
      "\<not> pos < 0" "not_in_parents P f"
      "get_all_node_parents n g f (Some tot) = Some (Inr children)"
      "parents_loop n g P (merge_children tot children) (Suc i) = res"
proof (cases "length tot \<le> i")
  case True
  with assms finished show ?thesis by (simp add: parents_loop_Suc)
next
  case False
  then have i: "i < length tot" by simp
  show ?thesis
  proof (cases "tot ! i")
    case None
    with assms i no_element show ?thesis by (simp add: parents_loop_Suc)
  next
    case (Some f)
    show ?thesis
    proof (cases "label_find f")
      case (Inl err)
      with assms i Some label_error show ?thesis by (simp add: parents_loop_Suc)
    next
      case (Inr pos)
      show ?thesis
      proof (cases "pos < 0 \<or> \<not> not_in_parents P f")
        case True
        with assms i Some Inr skip [of f pos] show ?thesis by (auto simp: parents_loop_Suc)
      next
        case no: False
        show ?thesis
        proof (cases "get_all_node_parents n g f (Some tot)")
          case None
          with assms i Some Inr no unfinished [of f pos] show ?thesis by (simp add: parents_loop_Suc)
        next
          case r: (Some r)
          show ?thesis
          proof (cases r)
            case (Inl err)
            with assms i Some Inr no r raised [of f pos err] show ?thesis by (simp add: parents_loop_Suc)
          next
            case (Inr children)
            with assms i Some \<open>label_find f = Inr pos\<close> no r merged [of f pos children]
            show ?thesis by (simp add: parents_loop_Suc)
          qed
        qed
      qed
    qed
  qed
qed


lemma fuel_Suc:
  "(\<forall>start P r. get_all_node_parents n g start P = Some r
       \<longrightarrow> get_all_node_parents (Suc n) g start P = Some r)
   \<and> (\<forall>P tot i r. parents_loop n g P tot i = Some r
       \<longrightarrow> parents_loop (Suc n) g P tot i = Some r)"
proof (induction n)
  case 0
  show ?case by (simp add: get_all_node_parents_0 parents_loop_0)
next
  case (Suc n)
  have loop: "parents_loop (Suc (Suc n)) g P tot i = Some r"
    if "parents_loop (Suc n) g P tot i = Some r" for P tot i r
    using that
  proof (cases rule: parents_loop_Suc_cases)
    case finished
    then show ?thesis by (simp add: parents_loop_Suc)
  next
    case no_element
    then show ?thesis by (simp add: parents_loop_Suc)
  next
    case (label_error f err)
    then show ?thesis by (simp add: parents_loop_Suc)
  next
    case (skip f pos)
    then have "parents_loop (Suc n) g P tot (Suc i) = Some r"
      using Suc.IH by simp
    with skip(1-4) show ?thesis
      by (subst parents_loop_Suc) auto
  next
    case (unfinished f pos)
    then show ?thesis by simp
  next
    case (raised f pos err)
    then have "get_all_node_parents (Suc n) g f (Some tot) = Some (Inl err)"
      using Suc.IH by simp
    with raised(1-5,7) show ?thesis
      by (subst parents_loop_Suc) simp
  next
    case (merged f pos children)
    then have "get_all_node_parents (Suc n) g f (Some tot) = Some (Inr children)"
      and "parents_loop (Suc n) g P (merge_children tot children) (Suc i) = Some r"
      using Suc.IH by simp_all
    with merged(1-5) show ?thesis
      by (subst parents_loop_Suc) simp
  qed
  have "get_all_node_parents (Suc (Suc n)) g start P = Some r"
    if "get_all_node_parents (Suc n) g start P = Some r" for start P r
    using that Suc.IH
    by (simp add: get_all_node_parents_Suc [of _ g start P] split: if_splits)
  with loop show ?case by blast
qed

lemma fuel_mono:
  assumes "n \<le> m"
  shows "get_all_node_parents n g start P = Some r \<Longrightarrow> get_all_node_parents m g start P = Some r"
    and "parents_loop n g P tot i = Some r \<Longrightarrow> parents_loop m g P tot i = Some r"
  using assms by (induction m) (auto simp: le_Suc_eq fuel_Suc)


section \<open>Descendant discovery: what a run collects\<close>

lemma out_targets_edge:
  "it \<in> set (out_targets g x) \<longleftrightarrow>
     (\<exists>e \<in> set (edges g). from_id e = x \<and> it = getitem g (KId (to_id e)))"
  by (auto simp: out_targets_def)

lemma out_targets_rel:
  "Some f \<in> set (out_targets g x) \<Longrightarrow> (x, ent_id f) \<in> edge_rel g"
  by (force simp: out_targets_edge edge_rel_def dest: getitem_KId_id [OF sym])

lemma descendants_rel:
  "it \<in> descendants g x \<Longrightarrow> it = Some f \<Longrightarrow> (x, ent_id f) \<in> (edge_rel g)\<^sup>+"
proof (induction arbitrary: f rule: descendants.induct)
  case (direct it)
  then show ?case by (auto dest: out_targets_rel)
next
  case (through h it)
  then have "(x, ent_id h) \<in> (edge_rel g)\<^sup>+" "(ent_id h, ent_id f) \<in> edge_rel g"
    by (auto dest: out_targets_rel)
  then show ?case by (rule trancl_into_trancl)
qed

lemma descendants_looked_up:
  "it \<in> descendants g x \<Longrightarrow> it \<in> (\<lambda>e. getitem g (KId (to_id e))) ` set (edges g)"
  by (induction rule: descendants.induct) (auto simp: out_targets_edge)

lemma finite_descendants: "finite (descendants g x)"
  by (rule finite_subset [of _ "(\<lambda>e. getitem g (KId (to_id e))) ` set (edges g)"])
     (auto dest: descendants_looked_up)

lemma descendants_trans:
  assumes "Some f \<in> descendants g x" "colon_label f"
  shows "it \<in> descendants g (ent_id f) \<Longrightarrow> it \<in> descendants g x"
proof (induction rule: descendants.induct)
  case (direct it)
  with assms show ?case by (rule descendants.through)
next
  case (through h it)
  then show ?case by (blast intro: descendants.through)
qed

lemma append_new_decomp:
  "\<exists>new. append_new tot cs = tot @ new \<and> distinct new \<and> set new = set cs - set tot"
proof (induction cs arbitrary: tot)
  case Nil
  show ?case by simp
next
  case (Cons c cs)
  show ?case
  proof (cases "c \<in> set tot")
    case True
    with Cons [of tot] show ?thesis by auto
  next
    case False
    from Cons [of "tot @ [c]"] obtain new where
      n: "append_new (tot @ [c]) cs = (tot @ [c]) @ new" "distinct new"
         "set new = set cs - set (tot @ [c])"
      by blast
    have "append_new tot (c # cs) = tot @ (c # new)"
      using False n(1) by simp
    moreover have "distinct (c # new)" using n(2,3) by auto
    moreover have "set (c # new) = set (c # cs) - set tot" using n(3) False by auto
    ultimately show ?thesis by blast
  qed
qed

lemma merge_children_decomp:
  "\<exists>new. merge_children tot children = tot @ new \<and> distinct new
     \<and> set new = (case children of None \<Rightarrow> {} | Some cs \<Rightarrow> set cs) - set tot"
proof (cases children)
  case None
  then show ?thesis by (simp add: merge_children_def)
next
  case (Some cs)
  with append_new_decomp [of tot cs] show ?thesis
    by (cases "cs = []") (auto simp: merge_children_def)
qed

lemma run_sound:
  "(\<forall>start P r. get_all_node_parents n g start P = Some (Inr r) \<longrightarrow>
      (case r of
         None \<Rightarrow> out_targets g (ent_id start) = []
       | Some T \<Rightarrow> out_targets g (ent_id start) \<noteq> []
                  \<and> (\<exists>new. T = out_targets g (ent_id start) @ new \<and> distinct new
                        \<and> set new \<inter> set (out_targets g (ent_id start)) = {})
                  \<and> set T \<subseteq> descendants g (ent_id start)))
   \<and> (\<forall>P tot i x r. parents_loop n g P tot i = Some (Inr r) \<longrightarrow>
         set tot \<subseteq> descendants g x \<longrightarrow>
      (\<exists>T new. r = Some T \<and> T = tot @ new \<and> distinct new \<and> set new \<inter> set tot = {}
          \<and> set T \<subseteq> descendants g x))"
proof (induction n)
  case 0
  show ?case by (simp add: get_all_node_parents_0 parents_loop_0)
next
  case (Suc n)
  from Suc.IH have IH_call: "case r of
         None \<Rightarrow> out_targets g (ent_id start) = []
       | Some T \<Rightarrow> out_targets g (ent_id start) \<noteq> []
                  \<and> (\<exists>new. T = out_targets g (ent_id start) @ new \<and> distinct new
                        \<and> set new \<inter> set (out_targets g (ent_id start)) = {})
                  \<and> set T \<subseteq> descendants g (ent_id start)"
    if "get_all_node_parents n g start P = Some (Inr r)" for start P r
    using that by blast
  from Suc.IH have IH_loop: "\<exists>T new. r = Some T \<and> T = tot @ new \<and> distinct new
        \<and> set new \<inter> set tot = {} \<and> set T \<subseteq> descendants g x"
    if "parents_loop n g P tot i = Some (Inr r)" "set tot \<subseteq> descendants g x" for P tot i x r
    using that by blast
  have loop: "\<exists>T new. r = Some T \<and> T = tot @ new \<and> distinct new \<and> set new \<inter> set tot = {}
                \<and> set T \<subseteq> descendants g x"
    if run: "parents_loop (Suc n) g P tot i = Some (Inr r)" and sub: "set tot \<subseteq> descendants g x"
    for P tot i x r
    using run
  proof (cases rule: parents_loop_Suc_cases)
    case finished
    with sub show ?thesis by simp
  next
    case (skip f pos)
    from IH_loop [OF skip(5) sub] show ?thesis .
  next
    case (merged f pos children)
    have "Some f \<in> set tot"
      using merged(1,2) nth_mem [of i tot] by simp
    then have f: "Some f \<in> descendants g x" "colon_label f"
      using merged(3,4) sub label_find_colon [of f pos] by auto
    obtain new where new: "merge_children tot children = tot @ new" "distinct new"
      "set new = (case children of None \<Rightarrow> {} | Some cs \<Rightarrow> set cs) - set tot"
      using merge_children_decomp by blast
    have "set new \<subseteq> descendants g (ent_id f)"
    proof (cases children)
      case None
      with new(3) show ?thesis by simp
    next
      case (Some cs)
      with IH_call [OF merged(6)] have "set cs \<subseteq> descendants g (ent_id f)" by simp
      with new(3) Some show ?thesis by auto
    qed
    then have "set new \<subseteq> descendants g x"
      using descendants_trans [OF f] by blast
    then have "set (merge_children tot children) \<subseteq> descendants g x"
      using new(1) sub by simp
    from IH_loop [OF merged(7) this] obtain T new' where
      T: "r = Some T" "T = merge_children tot children @ new'" "distinct new'"
         "set new' \<inter> set (merge_children tot children) = {}" "set T \<subseteq> descendants g x"
      by blast
    have "T = tot @ (new @ new')"
      using T(2) new(1) by simp
    moreover have "distinct (new @ new')"
      using T(3,4) new(1,2) by auto
    moreover have "set (new @ new') \<inter> set tot = {}"
      using T(4) new(1,3) by auto
    ultimately show ?thesis
      using T(1,5) by blast
  qed simp_all
  have "case r of
         None \<Rightarrow> out_targets g (ent_id start) = []
       | Some T \<Rightarrow> out_targets g (ent_id start) \<noteq> []
                  \<and> (\<exists>new. T = out_targets g (ent_id start) @ new \<and> distinct new
                        \<and> set new \<inter> set (out_targets g (ent_id start)) = {})
                  \<and> set T \<subseteq> descendants g (ent_id start)"
    if run: "get_all_node_parents (Suc n) g start P = Some (Inr r)" for start P r
  proof (cases "out_targets g (ent_id start) = []")
    case True
    with run show ?thesis by (simp add: get_all_node_parents_Suc)
  next
    case False
    with run have l: "parents_loop n g P (out_targets g (ent_id start)) 0 = Some (Inr r)"
      by (simp add: get_all_node_parents_Suc)
    have "set (out_targets g (ent_id start)) \<subseteq> descendants g (ent_id start)"
      by (auto intro: descendants.direct)
    from IH_loop [OF l this] obtain T new where
      "r = Some T" "T = out_targets g (ent_id start) @ new" "distinct new"
      "set new \<inter> set (out_targets g (ent_id start)) = {}" "set T \<subseteq> descendants g (ent_id start)"
      by blast
    with False show ?thesis by simp
  qed
  with loop show ?case by blast
qed


lemma call_result:
  assumes "get_all_node_parents n g start P = Some (Inr r)"
  shows "case r of
         None \<Rightarrow> out_targets g (ent_id start) = []
       | Some T \<Rightarrow> out_targets g (ent_id start) \<noteq> []
                  \<and> (\<exists>new. T = out_targets g (ent_id start) @ new \<and> distinct new
                        \<and> set new \<inter> set (out_targets g (ent_id start)) = {})
                  \<and> set T \<subseteq> descendants g (ent_id start)"
  using run_sound [of n g] assms by blast

lemma call_sound:
  assumes "get_all_node_parents n g start P = Some (Inr (Some T))"
  shows "out_targets g (ent_id start) \<noteq> []"
    and "set (out_targets g (ent_id start)) \<subseteq> set T"
    and "set T \<subseteq> descendants g (ent_id start)"
    and "distinct (out_targets g (ent_id start)) \<Longrightarrow> distinct T"
proof -
  from call_result [OF assms] obtain new where "out_targets g (ent_id start) \<noteq> []"
    "T = out_targets g (ent_id start) @ new" "distinct new"
    "set new \<inter> set (out_targets g (ent_id start)) = {}"
    "set T \<subseteq> descendants g (ent_id start)"
    by auto
  then show "out_targets g (ent_id start) \<noteq> []"
    and "set (out_targets g (ent_id start)) \<subseteq> set T"
    and "set T \<subseteq> descendants g (ent_id start)"
    and "distinct (out_targets g (ent_id start)) \<Longrightarrow> distinct T"
    by auto
qed

lemma call_sound_None:
  assumes "get_all_node_parents n g start P = Some (Inr None)"
  shows "out_targets g (ent_id start) = []"
  using call_result [OF assms] by simp

lemma loop_result:
  assumes "parents_loop n g P tot i = Some (Inr r)" "set tot \<subseteq> descendants g x"
  shows "\<exists>T new. r = Some T \<and> T = tot @ new \<and> distinct new \<and> set new \<inter> set tot = {}
          \<and> set T \<subseteq> descendants g x"
  using run_sound [of n g] assms by blast

lemma loop_sound:
  assumes "parents_loop n g P tot i = Some (Inr r)" "set tot \<subseteq> descendants g x"
  obtains T new where "r = Some T" "T = tot @ new" "distinct new" "set new \<inter> set tot = {}"
    "set T \<subseteq> descendants g x"
  using loop_result [OF assms] by blast

lemma set_append_new: "set (append_new tot cs) = set tot \<union> set cs"
  by (induction cs arbitrary: tot) auto

lemma set_merge_children:
  "set (merge_children tot children)
     = set tot \<union> (case children of None \<Rightarrow> {} | Some cs \<Rightarrow> set cs)"
  by (cases children) (simp_all add: merge_children_def set_append_new)

lemma merge_children_sub:
  assumes "get_all_node_parents n g f (Some tot) = Some (Inr children)"
    "Some f \<in> descendants g x" "colon_label f" "set tot \<subseteq> descendants g x"
  shows "set (merge_children tot children) \<subseteq> descendants g x"
proof (cases children)
  case None
  with assms(4) show ?thesis by (simp add: set_merge_children)
next
  case (Some cs)
  with assms(1) have "set cs \<subseteq> descendants g (ent_id f)"
    by (simp add: call_sound(3))
  then have "set cs \<subseteq> descendants g x"
    using descendants_trans [OF assms(2,3)] by blast
  with assms(4) Some show ?thesis by (simp add: set_merge_children)
qed

lemma merge_children_covers:
  assumes "get_all_node_parents n g f (Some tot) = Some (Inr children)"
  shows "set (out_targets g (ent_id f)) \<subseteq> set (merge_children tot children)"
proof (cases children)
  case None
  with assms show ?thesis by (simp add: call_sound_None)
next
  case (Some cs)
  with assms have "set (out_targets g (ent_id f)) \<subseteq> set cs"
    by (simp add: call_sound(2))
  with Some show ?thesis by (auto simp: set_merge_children)
qed

lemma loop_closed:
  assumes top: "\<And>f. not_in_parents P f"
  shows "parents_loop n g P tot i = Some (Inr (Some T)) \<Longrightarrow> set tot \<subseteq> descendants g x
     \<Longrightarrow> i \<le> j \<Longrightarrow> j < length T \<Longrightarrow> T ! j = Some f \<Longrightarrow> colon_label f
     \<Longrightarrow> set (out_targets g (ent_id f)) \<subseteq> set T"
proof (induction n arbitrary: tot i)
  case 0
  then show ?case by (simp add: parents_loop_0)
next
  case (Suc n)
  from Suc.prems(1) show ?case
  proof (cases rule: parents_loop_Suc_cases)
    case finished
    with Suc.prems(3,4) show ?thesis by simp
  next
    case (skip h pos)
    show ?thesis
    proof (cases "j = i")
      case True
      from loop_sound [OF skip(5) Suc.prems(2)] obtain new where "T = tot @ new"
        by blast
      with skip(1,2) True Suc.prems(5) have "h = f" by (simp add: nth_append)
      with skip(3,4) top Suc.prems(6) label_find_colon [of h pos] show ?thesis by simp
    next
      case False
      with Suc.prems(3) have "Suc i \<le> j" by simp
      from Suc.IH [OF skip(5) Suc.prems(2) this Suc.prems(4,5,6)] show ?thesis .
    qed
  next
    case (merged h pos children)
    have "Some h \<in> set tot"
      using merged(1,2) nth_mem [of i tot] by simp
    then have h: "Some h \<in> descendants g x" "colon_label h"
      using merged(3,4) Suc.prems(2) label_find_colon [of h pos] by auto
    have sub: "set (merge_children tot children) \<subseteq> descendants g x"
      using merge_children_sub [OF merged(6) h Suc.prems(2)] .
    show ?thesis
    proof (cases "j = i")
      case True
      from loop_sound [OF merged(7) sub] obtain new where
        T: "T = merge_children tot children @ new"
        by blast
      obtain new' where "merge_children tot children = tot @ new'"
        using merge_children_decomp by blast
      with T merged(1,2) True Suc.prems(5) have "h = f" by (simp add: nth_append)
      with merge_children_covers [OF merged(6)] T show ?thesis by auto
    next
      case False
      with Suc.prems(3) have "Suc i \<le> j" by simp
      from Suc.IH [OF merged(7) sub this Suc.prems(4,5,6)] show ?thesis .
    qed
  qed simp_all
qed

lemma call_complete:
  assumes run: "get_all_node_parents n g start P = Some (Inr (Some T))"
    and top: "\<And>f. not_in_parents P f"
  shows "descendants g (ent_id start) \<subseteq> set T"
proof
  fix it
  assume "it \<in> descendants g (ent_id start)"
  then show "it \<in> set T"
  proof (induction rule: descendants.induct)
    case (direct it)
    with call_sound(2) [OF run] show ?case by blast
  next
    case (through f it)
    obtain m where m: "n = Suc m"
      using run by (cases n) (simp_all add: get_all_node_parents_0)
    have l: "parents_loop m g P (out_targets g (ent_id start)) 0 = Some (Inr (Some T))"
      using run call_sound(1) [OF run] by (simp add: m get_all_node_parents_Suc)
    have sub: "set (out_targets g (ent_id start)) \<subseteq> descendants g (ent_id start)"
      by (auto intro: descendants.direct)
    from through.IH obtain j where "j < length T" "T ! j = Some f"
      by (auto simp: in_set_conv_nth)
    from loop_closed [of P m g _ 0 T _ j f, OF top l sub _ this through.hyps(2)]
    have "set (out_targets g (ent_id f)) \<subseteq> set T" by simp
    with through.hyps(3) show ?case by blast
  qed
qed


section \<open>Descendant discovery: exceptions\<close>

lemma readable_label_error:
  assumes "readable_label (Some f)" "label_find f = Inl err"
  shows "err = KeyError \<and> unlabelled (Some f)"
  using label_find_Inl [OF assms(2)] assms(1)
  by (auto simp: readable_label_def unlabelled_def split: pyval.splits)

lemma unlabelled_label_find: "unlabelled (Some f) \<longleftrightarrow> label_find f = Inl KeyError"
  by (simp add: unlabelled_def label_find_KeyError)

lemma run_errors:
  "(\<forall>start P err. get_all_node_parents n g start P = Some (Inl err) \<longrightarrow>
       (\<forall>it \<in> descendants g (ent_id start). readable_label it) \<longrightarrow>
       err = KeyError \<and> (\<exists>it \<in> descendants g (ent_id start). unlabelled it))
   \<and> (\<forall>P tot i x err. parents_loop n g P tot i = Some (Inl err) \<longrightarrow>
       set tot \<subseteq> descendants g x \<longrightarrow> (\<forall>it \<in> descendants g x. readable_label it) \<longrightarrow>
       err = KeyError \<and> (\<exists>it \<in> descendants g x. unlabelled it))"
proof (induction n)
  case 0
  show ?case by (simp add: get_all_node_parents_0 parents_loop_0)
next
  case (Suc n)
  from Suc.IH have IH_call: "err = KeyError \<and> (\<exists>it \<in> descendants g (ent_id start). unlabelled it)"
    if "get_all_node_parents n g start P = Some (Inl err)"
      "\<forall>it \<in> descendants g (ent_id start). readable_label it" for start P err
    using that by blast
  from Suc.IH have IH_loop: "err = KeyError \<and> (\<exists>it \<in> descendants g x. unlabelled it)"
    if "parents_loop n g P tot i = Some (Inl err)" "set tot \<subseteq> descendants g x"
      "\<forall>it \<in> descendants g x. readable_label it" for P tot i x err
    using that by blast
  have loop: "err = KeyError \<and> (\<exists>it \<in> descendants g x. unlabelled it)"
    if run: "parents_loop (Suc n) g P tot i = Some (Inl err)" and sub: "set tot \<subseteq> descendants g x"
      and ok: "\<forall>it \<in> descendants g x. readable_label it"
    for P tot i x err
    using run
  proof (cases rule: parents_loop_Suc_cases)
    case no_element
    then have "None \<in> descendants g x"
      using sub nth_mem [of i tot] by auto
    with ok show ?thesis by (auto simp: readable_label_def)
  next
    case (label_error f err')
    then have f: "Some f \<in> descendants g x"
      using sub nth_mem [of i tot] by auto
    with ok have "readable_label (Some f)" by blast
    from readable_label_error [OF this label_error(3)] f label_error(4) show ?thesis
      by auto
  next
    case (skip f pos)
    from IH_loop [OF skip(5) sub ok] show ?thesis .
  next
    case (raised f pos err')
    have "Some f \<in> set tot"
      using raised(1,2) nth_mem [of i tot] by simp
    then have f: "Some f \<in> descendants g x" "colon_label f"
      using raised(3,4) sub label_find_colon [of f pos] by auto
    have inner: "descendants g (ent_id f) \<subseteq> descendants g x"
      using descendants_trans [OF f] by blast
    with ok have "\<forall>it \<in> descendants g (ent_id f). readable_label it" by blast
    from IH_call [OF raised(6) this] inner raised(7) show ?thesis by auto
  next
    case (merged f pos children)
    have "Some f \<in> set tot"
      using merged(1,2) nth_mem [of i tot] by simp
    then have f: "Some f \<in> descendants g x" "colon_label f"
      using merged(3,4) sub label_find_colon [of f pos] by auto
    from IH_loop [OF merged(7) merge_children_sub [OF merged(6) f sub] ok] show ?thesis .
  qed simp_all
  have "err = KeyError \<and> (\<exists>it \<in> descendants g (ent_id start). unlabelled it)"
    if run: "get_all_node_parents (Suc n) g start P = Some (Inl err)"
      and ok: "\<forall>it \<in> descendants g (ent_id start). readable_label it" for start P err
  proof -
    from run have l: "parents_loop n g P (out_targets g (ent_id start)) 0 = Some (Inl err)"
      by (simp add: get_all_node_parents_Suc split: if_splits)
    have "set (out_targets g (ent_id start)) \<subseteq> descendants g (ent_id start)"
      by (auto intro: descendants.direct)
    from IH_loop [OF l this ok] show ?thesis .
  qed
  with loop show ?case by blast
qed

lemma loop_never_returns:
  "i \<le> j \<Longrightarrow> j < length tot \<Longrightarrow> unlabelled (tot ! j)
     \<Longrightarrow> parents_loop n g P tot i \<noteq> Some (Inr r)"
proof (induction n arbitrary: tot i)
  case 0
  show ?case by (simp add: parents_loop_0)
next
  case (Suc n)
  show ?case
  proof
    assume "parents_loop (Suc n) g P tot i = Some (Inr r)"
    then show False
    proof (cases rule: parents_loop_Suc_cases)
      case finished
      with Suc.prems show ?thesis by simp
    next
      case (skip f pos)
      show ?thesis
      proof (cases "j = i")
        case True
        with Suc.prems(3) skip(2,3) show ?thesis by (simp add: unlabelled_label_find)
      next
        case False
        with Suc.prems(1) have "Suc i \<le> j" by simp
        from Suc.IH [OF this Suc.prems(2,3)] skip(5) show ?thesis by simp
      qed
    next
      case (merged f pos children)
      show ?thesis
      proof (cases "j = i")
        case True
        with Suc.prems(3) merged(2,3) show ?thesis by (simp add: unlabelled_label_find)
      next
        case False
        with Suc.prems(1) have le: "Suc i \<le> j" by simp
        obtain new where new: "merge_children tot children = tot @ new"
          using merge_children_decomp by blast
        have "j < length (merge_children tot children)"
          "unlabelled (merge_children tot children ! j)"
          using Suc.prems(2,3) by (simp_all add: new nth_append)
        from Suc.IH [OF le this] merged(7) show ?thesis by simp
      qed
    qed simp_all
  qed
qed

lemma call_never_returns:
  assumes "it \<in> set (out_targets g (ent_id start))" "unlabelled it"
  shows "get_all_node_parents n g start P \<noteq> Some (Inr r)"
proof (cases n)
  case 0
  then show ?thesis by (simp add: get_all_node_parents_0)
next
  case (Suc m)
  from assms(1) obtain j where "j < length (out_targets g (ent_id start))"
    "out_targets g (ent_id start) ! j = it"
    by (auto simp: in_set_conv_nth)
  with assms(2) loop_never_returns [of 0 j "out_targets g (ent_id start)" m g P r]
  have "parents_loop m g P (out_targets g (ent_id start)) 0 \<noteq> Some (Inr r)" by simp
  moreover have "out_targets g (ent_id start) \<noteq> []"
    using assms(1) by auto
  ultimately show ?thesis by (simp add: Suc get_all_node_parents_Suc)
qed


section \<open>Descendant discovery: termination\<close>

lemma merge_children_potential:
  assumes "finite U" "set (merge_children tot children) \<subseteq> U"
  shows "length (merge_children tot children) + card (U - set (merge_children tot children))
           = length tot + card (U - set tot)"
proof -
  obtain new where new: "merge_children tot children = tot @ new" "distinct new"
    "set new = (case children of None \<Rightarrow> {} | Some cs \<Rightarrow> set cs) - set tot"
    using merge_children_decomp by blast
  have sub: "set new \<subseteq> U - set tot"
    using assms(2) new(1,3) by auto
  have "U - set (tot @ new) = (U - set tot) - set new"
    by auto
  then have "card (U - set (tot @ new)) = card (U - set tot) - card (set new)"
    using sub by (simp add: card_Diff_subset)
  moreover have "card (set new) = length new"
    using new(2) by (rule distinct_card)
  moreover have "card (set new) \<le> card (U - set tot)"
    using sub assms(1) by (simp add: card_mono)
  ultimately show ?thesis
    by (simp add: new(1))
qed

lemma loop_terminates:
  assumes fin: "finite (descendants g x)"
    and calls: "\<And>f P m. Some f \<in> descendants g x \<Longrightarrow> K \<le> m
                  \<Longrightarrow> get_all_node_parents m g f P \<noteq> None"
  shows "set tot \<subseteq> descendants g x
     \<Longrightarrow> K + (length tot + card (descendants g x - set tot) - i) < n
     \<Longrightarrow> parents_loop n g P tot i \<noteq> None"
proof (induction n arbitrary: tot i)
  case 0
  then show ?case by simp
next
  case (Suc n)
  show ?case
  proof
    assume "parents_loop (Suc n) g P tot i = None"
    then show False
    proof (cases rule: parents_loop_Suc_cases)
      case (skip f pos)
      have "K + (length tot + card (descendants g x - set tot) - Suc i) < n"
        using Suc.prems(2) skip(1) by simp
      from Suc.IH [OF Suc.prems(1) this] skip(5) show ?thesis by simp
    next
      case (unfinished f pos)
      have "Some f \<in> descendants g x"
        using unfinished(1,2) Suc.prems(1) nth_mem [of i tot] by auto
      moreover have "K \<le> n"
        using Suc.prems(2) by simp
      ultimately show ?thesis
        using calls unfinished(6) by blast
    next
      case (merged f pos children)
      have "Some f \<in> set tot"
        using merged(1,2) nth_mem [of i tot] by simp
      then have f: "Some f \<in> descendants g x" "colon_label f"
        using merged(3,4) Suc.prems(1) label_find_colon [of f pos] by auto
      have sub: "set (merge_children tot children) \<subseteq> descendants g x"
        using merge_children_sub [OF merged(6) f Suc.prems(1)] .
      have "K + (length (merge_children tot children)
                 + card (descendants g x - set (merge_children tot children)) - Suc i) < n"
        using Suc.prems(2) merged(1) merge_children_potential [OF fin sub] by simp
      from Suc.IH [OF sub this] merged(7) show ?thesis by simp
    qed simp_all
  qed
qed

lemma finite_edge_rel: "finite (edge_rel g)"
  by (simp add: edge_rel_def)

lemma call_terminates:
  assumes "acyclic (edge_rel g)"
  shows "\<exists>k. \<forall>m\<ge>k. \<forall>start P. ent_id start = x \<longrightarrow> get_all_node_parents m g start P \<noteq> None"
proof -
  have "wf ((edge_rel g)\<inverse>)"
    using finite_edge_rel assms by (rule finite_acyclic_wf_converse)
  then have "wf (((edge_rel g)\<inverse>)\<^sup>+)"
    by (rule wf_trancl)
  then show ?thesis
  proof (induction x rule: wf_induct_rule)
    case (less x)
    define D where "D = {y. (x, y) \<in> (edge_rel g)\<^sup>+}"
    have "D = (edge_rel g)\<^sup>+ `` {x}"
      by (auto simp: D_def)
    then have finD: "finite D"
      using finite_edge_rel [of g] by (simp add: finite_Image)
    have "\<forall>y\<in>D. \<exists>k. \<forall>m\<ge>k. \<forall>start P. ent_id start = y
             \<longrightarrow> get_all_node_parents m g start P \<noteq> None"
    proof
      fix y
      assume "y \<in> D"
      then have "(y, x) \<in> ((edge_rel g)\<inverse>)\<^sup>+"
        by (simp add: D_def trancl_converse)
      then show "\<exists>k. \<forall>m\<ge>k. \<forall>start P. ent_id start = y
             \<longrightarrow> get_all_node_parents m g start P \<noteq> None"
        by (rule less.IH)
    qed
    from finite_set_choice [OF finD this] obtain kf where
      kf: "\<forall>y\<in>D. \<forall>m\<ge>kf y. \<forall>start P. ent_id start = y
             \<longrightarrow> get_all_node_parents m g start P \<noteq> None"
      by blast
    define K where "K = Max (insert 0 (kf ` D))"
    have K: "kf y \<le> K" if "y \<in> D" for y
      unfolding K_def using finD that by (intro Max_ge) auto
    have calls: "get_all_node_parents m g f P \<noteq> None"
      if "Some f \<in> descendants g x" "K \<le> m" for f P m
    proof -
      have "ent_id f \<in> D"
        using descendants_rel [OF that(1) refl] by (simp add: D_def)
      moreover from this have "kf (ent_id f) \<le> m"
        using K that(2) by fastforce
      ultimately show ?thesis
        using kf by blast
    qed
    let ?ot = "out_targets g x"
    have sub: "set ?ot \<subseteq> descendants g x"
      by (auto intro: descendants.direct)
    have "get_all_node_parents m g start P \<noteq> None"
      if "K + (length ?ot + card (descendants g x - set ?ot)) + 2 \<le> m" "ent_id start = x"
      for m start P
    proof -
      from that(1) have "m \<noteq> 0" by simp
      then obtain m' where m: "m = Suc m'"
        by (cases m) simp_all
      have "K + (length ?ot + card (descendants g x - set ?ot) - 0) < m'"
        using that(1) m by simp
      from loop_terminates [OF finite_descendants calls sub this]
      have "parents_loop m' g P ?ot 0 \<noteq> None"
        by blast
      then show ?thesis
        by (simp add: m that(2) get_all_node_parents_Suc)
    qed
    then show ?case by blast
  qed
qed

section \<open>Descendant discovery: the result\<close>

lemma acyclic_by_rank:
  fixes rank :: "ident \<Rightarrow> nat"
  assumes "\<forall>e \<in> set (edges g). rank (to_id e) < rank (from_id e)"
  shows "acyclic (edge_rel g)"
  by (rule acyclicI_order [where f = rank]) (use assms in \<open>auto simp: edge_rel_def\<close>)

lemma descendants_all:
  assumes "\<forall>e \<in> set (edges g). Q (getitem g (KId (to_id e)))"
  shows "\<forall>it \<in> descendants g x. Q it"
  using assms descendants_looked_up [of _ g x] by blast

lemma out_targets_empty:
  "out_targets g x = [] \<longleftrightarrow> (\<forall>e \<in> set (edges g). from_id e \<noteq> x)"
  by (auto simp: out_targets_def filter_empty_conv)

lemma string_label_readable: "string_label it \<Longrightarrow> readable_label it \<and> \<not> unlabelled it"
  by (auto simp: string_label_def readable_label_def unlabelled_def
        split: option.splits pyval.splits)

lemma call_returns:
  assumes ok: "\<forall>it \<in> descendants g (ent_id start). string_label it"
    and run: "get_all_node_parents n g start None = Some res"
  shows "(out_targets g (ent_id start) = [] \<longrightarrow> res = Inr None)
       \<and> (out_targets g (ent_id start) \<noteq> [] \<longrightarrow>
            (\<exists>T. res = Inr (Some T) \<and> set T = descendants g (ent_id start)
               \<and> (distinct (out_targets g (ent_id start)) \<longrightarrow> distinct T)))"
proof (cases res)
  case (Inl err)
  have "\<forall>it \<in> descendants g (ent_id start). readable_label it"
    using ok string_label_readable by blast
  with run_errors [of n g] run Inl
  have "\<exists>it \<in> descendants g (ent_id start). unlabelled it"
    by blast
  with ok string_label_readable show ?thesis by blast
next
  case (Inr r)
  show ?thesis
  proof (cases r)
    case None
    with run Inr show ?thesis by (simp add: call_sound_None)
  next
    case (Some T)
    with run Inr have r: "get_all_node_parents n g start None = Some (Inr (Some T))"
      by simp
    have "descendants g (ent_id start) \<subseteq> set T"
      using r by (rule call_complete) (simp add: not_in_parents_def)
    with call_sound [OF r] Inr Some show ?thesis by auto
  qed
qed

text \<open>
  C1, as amended. In a graph whose edge relation is acyclic, started on a node such that
  every item collected from it is an element of the graph with a string \<^verbatim>\<open>label\<close>, the
  call with \<^verbatim>\<open>parents\<close> absent terminates: from some fuel on, every run returns. It
  returns \<^verbatim>\<open>None\<close> when the start node has no outgoing edge, and otherwise a list whose
  elements are exactly the items reachable from the start node along outgoing edges
  through intermediate elements whose label contains a colon; the list has no repetition
  when the targets of the start node's own outgoing edges are pairwise distinct.
\<close>

theorem descendants_acyclic:
  assumes "acyclic (edge_rel g)"
    and "\<forall>it \<in> descendants g (ent_id start). string_label it"
  shows "\<exists>k. \<forall>n\<ge>k.
           ((\<forall>e \<in> set (edges g). from_id e \<noteq> ent_id start) \<longrightarrow>
              get_all_node_parents n g start None = Some (Inr None))
         \<and> (\<not> (\<forall>e \<in> set (edges g). from_id e \<noteq> ent_id start) \<longrightarrow>
              (\<exists>T. get_all_node_parents n g start None = Some (Inr (Some T))
                 \<and> set T = descendants g (ent_id start)
                 \<and> (distinct (out_targets g (ent_id start)) \<longrightarrow> distinct T)))"
proof -
  from call_terminates [OF assms(1), of "ent_id start"] obtain k where
    k: "\<forall>m\<ge>k. \<forall>s P. ent_id s = ent_id start \<longrightarrow> get_all_node_parents m g s P \<noteq> None"
    by blast
  have "((\<forall>e \<in> set (edges g). from_id e \<noteq> ent_id start) \<longrightarrow>
              get_all_node_parents n g start None = Some (Inr None))
         \<and> (\<not> (\<forall>e \<in> set (edges g). from_id e \<noteq> ent_id start) \<longrightarrow>
              (\<exists>T. get_all_node_parents n g start None = Some (Inr (Some T))
                 \<and> set T = descendants g (ent_id start)
                 \<and> (distinct (out_targets g (ent_id start)) \<longrightarrow> distinct T)))"
    if "k \<le> n" for n
  proof -
    from k that obtain res where "get_all_node_parents n g start None = Some res"
      by fastforce
    with call_returns [OF assms(2) this] show ?thesis
      by (simp add: out_targets_empty)
  qed
  then show ?thesis by blast
qed


lemma chain_graph_run:
  "get_all_node_parents 10 chain_graph (ENode (w_node 1 [(''label'', PStr ''a'')])) None
     = Some (Inr (Some [Some (ENode (w_node 2 [(''label'', PStr ''b:x'')])),
                        Some (ENode (w_node 3 [(''label'', PStr ''c'')])),
                        Some (ENode (w_node 4 [(''label'', PStr ''d'')]))]))"
  by code_simp

lemma chain_graph_acyclic: "acyclic (edge_rel chain_graph)"
  by (rule acyclic_by_rank [where rank = depth_rank])
     (simp add: chain_graph_def w_edge_def depth_rank_def)

lemma chain_graph_labels:
  "\<forall>it \<in> descendants chain_graph x. string_label it"
  by (rule descendants_all)
     (simp add: chain_graph_def w_edge_def w_node_def getitem_def
        string_label_def dict_get_def)

theorem descendants_acyclic_witness:
  "acyclic (edge_rel chain_graph)
   \<and> (\<exists>k. get_all_node_parents k chain_graph (ENode (w_node 1 [(''label'', PStr ''a'')])) None
        = Some (Inr (Some [Some (ENode (w_node 2 [(''label'', PStr ''b:x'')])),
                           Some (ENode (w_node 3 [(''label'', PStr ''c'')])),
                           Some (ENode (w_node 4 [(''label'', PStr ''d'')]))])))
   \<and> descendants chain_graph (UUID 1)
       = {Some (ENode (w_node 2 [(''label'', PStr ''b:x'')])),
          Some (ENode (w_node 3 [(''label'', PStr ''c'')])),
          Some (ENode (w_node 4 [(''label'', PStr ''d'')]))}"
proof -
  let ?start = "ENode (w_node 1 [(''label'', PStr ''a'')])"
  let ?T = "[Some (ENode (w_node 2 [(''label'', PStr ''b:x'')])),
             Some (ENode (w_node 3 [(''label'', PStr ''c'')])),
             Some (ENode (w_node 4 [(''label'', PStr ''d'')]))]"
  have id: "ent_id ?start = UUID 1"
    by (simp add: w_node_def)
  have out: "\<not> (\<forall>e \<in> set (edges chain_graph). from_id e \<noteq> ent_id ?start)"
    by (simp add: chain_graph_def w_edge_def w_node_def)
  from descendants_acyclic [OF chain_graph_acyclic, of ?start] chain_graph_labels
  obtain k where k: "\<forall>n\<ge>k.
           ((\<forall>e \<in> set (edges chain_graph). from_id e \<noteq> ent_id ?start) \<longrightarrow>
              get_all_node_parents n chain_graph ?start None = Some (Inr None))
         \<and> (\<not> (\<forall>e \<in> set (edges chain_graph). from_id e \<noteq> ent_id ?start) \<longrightarrow>
              (\<exists>T. get_all_node_parents n chain_graph ?start None = Some (Inr (Some T))
                 \<and> set T = descendants chain_graph (ent_id ?start)
                 \<and> (distinct (out_targets chain_graph (ent_id ?start)) \<longrightarrow> distinct T)))"
    by blast
  have "k \<le> max k 10" by simp
  with k out obtain T where
    T: "get_all_node_parents (max k 10) chain_graph ?start None = Some (Inr (Some T))"
       "set T = descendants chain_graph (ent_id ?start)"
    by blast
  have "get_all_node_parents (max k 10) chain_graph ?start None = Some (Inr (Some ?T))"
    by (rule fuel_mono(1) [OF _ chain_graph_run]) simp
  with T have "T = ?T" by simp
  with T(2) id have "descendants chain_graph (UUID 1) = set ?T" by simp
  with chain_graph_acyclic chain_graph_run show ?thesis by auto
qed


text \<open>
  Two acyclic graphs on which the statement without the two provisos fails. In
  \<^verbatim>\<open>unlabelled_graph\<close> a collected node has no label and the call raises \<^verbatim>\<open>KeyError\<close>
  instead of returning. In \<^verbatim>\<open>parallel_graph\<close> two edges lead from the start node to the
  same node, and the returned list holds that node twice.
\<close>

theorem descendants_acyclic_counterexample:
  "acyclic (edge_rel unlabelled_graph)
   \<and> get_all_node_parents 10 unlabelled_graph (ENode (w_node 1 [(''label'', PStr ''a'')])) None
       = Some (Inl KeyError)
   \<and> acyclic (edge_rel parallel_graph)
   \<and> get_all_node_parents 10 parallel_graph (ENode (w_node 1 [(''label'', PStr ''a'')])) None
       = Some (Inr (Some [Some (ENode (w_node 2 [(''label'', PStr ''b'')])),
                          Some (ENode (w_node 2 [(''label'', PStr ''b'')]))]))
   \<and> \<not> distinct [Some (ENode (w_node 2 [(''label'', PStr ''b'')])),
                   Some (ENode (w_node 2 [(''label'', PStr ''b'')]))]"
proof -
  have "acyclic (edge_rel unlabelled_graph)"
    by (rule acyclic_by_rank [where rank = depth_rank])
       (simp add: unlabelled_graph_def w_edge_def depth_rank_def)
  moreover have "acyclic (edge_rel parallel_graph)"
    by (rule acyclic_by_rank [where rank = depth_rank])
       (simp add: parallel_graph_def w_edge_def depth_rank_def)
  moreover have
    "get_all_node_parents 10 unlabelled_graph (ENode (w_node 1 [(''label'', PStr ''a'')])) None
       = Some (Inl KeyError)"
    by code_simp
  moreover have
    "get_all_node_parents 10 parallel_graph (ENode (w_node 1 [(''label'', PStr ''a'')])) None
       = Some (Inr (Some [Some (ENode (w_node 2 [(''label'', PStr ''b'')])),
                          Some (ENode (w_node 2 [(''label'', PStr ''b'')]))]))"
    by code_simp
  ultimately show ?thesis by simp
qed

section \<open>Descendant discovery: a collected element without a label\<close>

text \<open>
  C10, as amended. When an element directly reachable from the start node by an outgoing
  edge has no \<^verbatim>\<open>label\<close> property, the call never returns a result, whatever \<^verbatim>\<open>parents\<close>
  is. When moreover every item collected from the start node is an element of the graph
  whose label, if it has one, is a string, a run that ends raises \<^verbatim>\<open>KeyError\<close>; and in a
  graph whose edge relation is acyclic the run does end, so the call raises \<^verbatim>\<open>KeyError\<close>.
\<close>

theorem unlabelled_child_raises:
  assumes "it \<in> set (out_targets g (ent_id start))" "unlabelled it"
  shows "(\<forall>n r. get_all_node_parents n g start P \<noteq> Some (Inr r))
       \<and> ((\<forall>it \<in> descendants g (ent_id start). readable_label it) \<longrightarrow>
            (\<forall>n. get_all_node_parents n g start P = None
                \<or> get_all_node_parents n g start P = Some (Inl KeyError))
          \<and> (acyclic (edge_rel g) \<longrightarrow>
               (\<exists>k. \<forall>n\<ge>k. get_all_node_parents n g start P = Some (Inl KeyError))))"
proof -
  have never: "get_all_node_parents n g start P \<noteq> Some (Inr r)" for n r
    using assms by (rule call_never_returns)
  have only: "get_all_node_parents n g start P = None
                \<or> get_all_node_parents n g start P = Some (Inl KeyError)"
    if ok: "\<forall>it \<in> descendants g (ent_id start). readable_label it" for n
  proof (cases "get_all_node_parents n g start P")
    case None
    then show ?thesis by simp
  next
    case (Some res)
    show ?thesis
    proof (cases res)
      case (Inl err)
      with run_errors [of n g] Some ok have "err = KeyError" by blast
      with Some Inl show ?thesis by simp
    next
      case (Inr r)
      with Some never show ?thesis by simp
    qed
  qed
  have ends: "\<exists>k. \<forall>n\<ge>k. get_all_node_parents n g start P = Some (Inl KeyError)"
    if ok: "\<forall>it \<in> descendants g (ent_id start). readable_label it"
      and acyc: "acyclic (edge_rel g)"
  proof -
    from call_terminates [OF acyc, of "ent_id start"] obtain k where
      "\<forall>m\<ge>k. \<forall>s P. ent_id s = ent_id start \<longrightarrow> get_all_node_parents m g s P \<noteq> None"
      by blast
    then have "\<forall>n\<ge>k. get_all_node_parents n g start P = Some (Inl KeyError)"
      using only [OF ok] by blast
    then show ?thesis ..
  qed
  from never only ends show ?thesis by blast
qed

theorem unlabelled_child_raises_witness:
  "Some (ENode (w_node 4 [(''name'', PStr ''d'')]))
      \<in> set (out_targets unlabelled_graph (ent_id (ENode (w_node 1 [(''label'', PStr ''a'')]))))
   \<and> unlabelled (Some (ENode (w_node 4 [(''name'', PStr ''d'')])))
   \<and> acyclic (edge_rel unlabelled_graph)
   \<and> (\<exists>k. get_all_node_parents k unlabelled_graph (ENode (w_node 1 [(''label'', PStr ''a'')])) None
          = Some (Inl KeyError)
        \<and> get_all_node_parents (Suc k) unlabelled_graph
              (ENode (w_node 1 [(''label'', PStr ''a'')])) None
          = Some (Inl KeyError))"
proof -
  let ?start = "ENode (w_node 1 [(''label'', PStr ''a'')])"
  let ?d = "Some (ENode (w_node 4 [(''name'', PStr ''d'')]))"
  have child: "?d \<in> set (out_targets unlabelled_graph (ent_id ?start))"
    by (simp add: out_targets_def unlabelled_graph_def w_edge_def
          w_node_def getitem_def)
  have un: "unlabelled ?d"
    by (simp add: unlabelled_def w_node_def dict_get_def)
  have acyc: "acyclic (edge_rel unlabelled_graph)"
    by (rule acyclic_by_rank [where rank = depth_rank])
       (simp add: unlabelled_graph_def w_edge_def depth_rank_def)
  have ok: "\<forall>it \<in> descendants unlabelled_graph (ent_id ?start). readable_label it"
    by (rule descendants_all)
       (simp add: unlabelled_graph_def w_edge_def w_node_def getitem_def
          readable_label_def dict_get_def)
  from unlabelled_child_raises [OF child un, of None] ok acyc
  obtain k where "\<forall>n\<ge>k. get_all_node_parents n unlabelled_graph ?start None = Some (Inl KeyError)"
    by blast
  then have "get_all_node_parents k unlabelled_graph ?start None = Some (Inl KeyError)"
    "get_all_node_parents (Suc k) unlabelled_graph ?start None = Some (Inl KeyError)"
    by simp_all
  with child un acyc show ?thesis by blast
qed

text \<open>
  Without the provisos the error need not be \<^verbatim>\<open>KeyError\<close>. In both graphs the start node
  has an outgoing edge to the unlabelled node 4, but an edge that stands before it leads
  to an id that no element has (\<^verbatim>\<open>dangling_graph\<close>) or to a node whose label is an integer
  (\<^verbatim>\<open>int_label_graph\<close>), and the call raises \<^verbatim>\<open>AttributeError\<close> there.
\<close>

theorem unlabelled_child_raises_counterexample:
  "Some (ENode (w_node 4 [(''name'', PStr ''d'')]))
      \<in> set (out_targets dangling_graph (UUID 1))
   \<and> Some (ENode (w_node 4 [(''name'', PStr ''d'')]))
      \<in> set (out_targets int_label_graph (UUID 1))
   \<and> unlabelled (Some (ENode (w_node 4 [(''name'', PStr ''d'')])))
   \<and> get_all_node_parents 10 dangling_graph (ENode (w_node 1 [(''label'', PStr ''a'')])) None
       = Some (Inl AttributeError)
   \<and> get_all_node_parents 10 int_label_graph (ENode (w_node 1 [(''label'', PStr ''a'')])) None
       = Some (Inl AttributeError)"
proof -
  have "Some (ENode (w_node 4 [(''name'', PStr ''d'')])) \<in> set (out_targets dangling_graph (UUID 1))"
    by (simp add: out_targets_def dangling_graph_def w_edge_def
          w_node_def getitem_def)
  moreover have
    "Some (ENode (w_node 4 [(''name'', PStr ''d'')])) \<in> set (out_targets int_label_graph (UUID 1))"
    by (simp add: out_targets_def int_label_graph_def w_edge_def
          w_node_def getitem_def)
  moreover have "unlabelled (Some (ENode (w_node 4 [(''name'', PStr ''d'')])))"
    by (simp add: unlabelled_def w_node_def dict_get_def)
  moreover have
    "get_all_node_parents 10 dangling_graph (ENode (w_node 1 [(''label'', PStr ''a'')])) None
       = Some (Inl AttributeError)"
    by code_simp
  moreover have
    "get_all_node_parents 10 int_label_graph (ENode (w_node 1 [(''label'', PStr ''a'')])) None
       = Some (Inl AttributeError)"
    by code_simp
  ultimately show ?thesis by simp
qed

end
